theory Spec2Isabelle
  imports Complex_Main "HOL-Library.Sublist" "HOL-Library.Word" "HOL-Library.AList"
begin

section \<open>Python values used by \<^verbatim>\<open>midi_processor.py\<close>\<close>

text \<open>
  The exceptions the modelled code can raise. A function that can raise returns
  \<open>error + 'a\<close>, with \<open>Inl\<close> the exception.
\<close>

datatype error = ZeroDivisionError | OverflowError | ValueError | TypeError | AttributeError

subsection \<open>Floats: IEEE-754 binary64 with round-to-nearest, ties-to-even\<close>

text \<open>
  A finite Python float is the real number it denotes. \<open>round_double\<close> maps a real to
  the nearest binary64 value (53 significant bits, least exponent \<open>-1022\<close>, subnormals
  included), ties going to the even significand; a rounded magnitude of \<open>2 ^ 1024\<close> or
  more is an overflow. The sign of zero is not kept: no operation of the program
  observes it (division by either zero raises, and \<open>math.ceil\<close> of either zero is 0).
\<close>

fun bit_length :: "nat \<Rightarrow> nat" where
  "bit_length n = (if n = 0 then 0 else Suc (bit_length (n div 2)))"

declare bit_length.simps [simp del]

definition ilog2 :: "real \<Rightarrow> int" where
  "ilog2 x = (if 1 \<le> x then int (bit_length (nat \<lfloor>x\<rfloor>)) - 1
              else - int (bit_length (nat (\<lceil>1 / x\<rceil> - 1))))"

definition round_half_even :: "real \<Rightarrow> int" where
  "round_half_even r =
     (let f = \<lfloor>r\<rfloor>; d = r - of_int f
      in if d < 1 / 2 then f
         else if 1 / 2 < d then f + 1
         else if even f then f else f + 1)"

definition ulp :: "real \<Rightarrow> real" where
  "ulp x = 2 powi (max (ilog2 x) (- 1022) - 52)"

definition round_pos :: "real \<Rightarrow> real" where
  "round_pos x = of_int (round_half_even (x / ulp x)) * ulp x"

definition round_double :: "real \<Rightarrow> real" where
  "round_double x =
     (if x = 0 then 0 else if 0 < x then round_pos x else - round_pos (- x))"

datatype pyfloat = Finite real | PosInf | NegInf | NaN

text \<open>The result of a float operation whose exact value is \<open>x\<close>.\<close>

definition fl :: "real \<Rightarrow> pyfloat" where
  "fl x =
     (let r = round_double x
      in if 2 ^ 1024 \<le> r then PosInf else if r \<le> - (2 ^ 1024) then NegInf else Finite r)"

text \<open>\<^verbatim>\<open>float(n)\<close> for an int, and the conversion of the int operand of a mixed operation.\<close>

definition float_of_int :: "int \<Rightarrow> error + pyfloat" where
  "float_of_int n =
     (case fl (of_int n) of Finite r \<Rightarrow> Inr (Finite r) | _ \<Rightarrow> Inl OverflowError)"

text \<open>\<^verbatim>\<open>a / b\<close> on two ints: the correctly rounded quotient.\<close>

definition int_truediv :: "int \<Rightarrow> int \<Rightarrow> error + pyfloat" where
  "int_truediv a b =
     (if b = 0 then Inl ZeroDivisionError
      else case fl (of_int a / of_int b) of Finite r \<Rightarrow> Inr (Finite r) | _ \<Rightarrow> Inl OverflowError)"

text \<open>\<^verbatim>\<open>a / b\<close> on two floats.\<close>

definition float_truediv :: "pyfloat \<Rightarrow> pyfloat \<Rightarrow> error + pyfloat" where
  "float_truediv a b =
     (if b = Finite 0 then Inl ZeroDivisionError
      else Inr (case (a, b) of
          (Finite x, Finite y) \<Rightarrow> fl (x / y)
        | (Finite x, PosInf) \<Rightarrow> Finite 0
        | (Finite x, NegInf) \<Rightarrow> Finite 0
        | (PosInf, Finite y) \<Rightarrow> if 0 < y then PosInf else NegInf
        | (NegInf, Finite y) \<Rightarrow> if 0 < y then NegInf else PosInf
        | _ \<Rightarrow> NaN))"

text \<open>\<^verbatim>\<open>a + b\<close> on two floats.\<close>

definition float_add :: "pyfloat \<Rightarrow> pyfloat \<Rightarrow> pyfloat" where
  "float_add a b =
     (case (a, b) of
        (Finite x, Finite y) \<Rightarrow> fl (x + y)
      | (Finite x, PosInf) \<Rightarrow> PosInf
      | (Finite x, NegInf) \<Rightarrow> NegInf
      | (PosInf, Finite y) \<Rightarrow> PosInf
      | (PosInf, PosInf) \<Rightarrow> PosInf
      | (NegInf, Finite y) \<Rightarrow> NegInf
      | (NegInf, NegInf) \<Rightarrow> NegInf
      | _ \<Rightarrow> NaN)"

text \<open>\<^verbatim>\<open>a * b\<close> on two floats.\<close>

definition float_mul :: "pyfloat \<Rightarrow> pyfloat \<Rightarrow> pyfloat" where
  "float_mul a b =
     (case (a, b) of
        (Finite x, Finite y) \<Rightarrow> fl (x * y)
      | (Finite x, PosInf) \<Rightarrow> if x = 0 then NaN else if 0 < x then PosInf else NegInf
      | (Finite x, NegInf) \<Rightarrow> if x = 0 then NaN else if 0 < x then NegInf else PosInf
      | (PosInf, Finite y) \<Rightarrow> if y = 0 then NaN else if 0 < y then PosInf else NegInf
      | (NegInf, Finite y) \<Rightarrow> if y = 0 then NaN else if 0 < y then NegInf else PosInf
      | (PosInf, PosInf) \<Rightarrow> PosInf
      | (PosInf, NegInf) \<Rightarrow> NegInf
      | (NegInf, PosInf) \<Rightarrow> NegInf
      | (NegInf, NegInf) \<Rightarrow> PosInf
      | _ \<Rightarrow> NaN)"

text \<open>\<^verbatim>\<open>math.ceil(x)\<close>: an int, or OverflowError on an infinity, ValueError on a NaN.\<close>

definition math_ceil :: "pyfloat \<Rightarrow> error + int" where
  "math_ceil a =
     (case a of
        Finite x \<Rightarrow> Inr \<lceil>x\<rceil>
      | PosInf \<Rightarrow> Inl OverflowError
      | NegInf \<Rightarrow> Inl OverflowError
      | NaN \<Rightarrow> Inl ValueError)"

subsection \<open>\<^verbatim>\<open>str\<close> and \<^verbatim>\<open>int\<close> between ints and strings\<close>

definition digit_char :: "nat \<Rightarrow> char" where
  "digit_char d = ''0123456789'' ! d"

fun str_nat :: "nat \<Rightarrow> string" where
  "str_nat n = (if n < 10 then [digit_char n] else str_nat (n div 10) @ [digit_char (n mod 10)])"

declare str_nat.simps [simp del]

text \<open>\<^verbatim>\<open>str(i)\<close> for an int: the decimal digits, after a minus sign when negative.\<close>

definition str_int :: "int \<Rightarrow> string" where
  "str_int i = (if i < 0 then CHR ''-'' # str_nat (nat (- i)) else str_nat (nat i))"

definition digit_value :: "char \<Rightarrow> nat option" where
  "digit_value c = (if c \<in> set ''0123456789'' then Some (of_char c - 48) else None)"

fun digits_value :: "nat \<Rightarrow> string \<Rightarrow> nat option" where
  "digits_value acc [] = Some acc"
| "digits_value acc (c # cs) =
     (case digit_value c of None \<Rightarrow> None | Some d \<Rightarrow> digits_value (10 * acc + d) cs)"

text \<open>
  \<^verbatim>\<open>int(s)\<close> for a string: an optional sign and at least one decimal digit, ValueError
  otherwise. Python also accepts surrounding white space and underscores between
  digits; the only strings the program converts are the results of \<^verbatim>\<open>str\<close> on an int,
  which have neither.
\<close>

definition py_int :: "string \<Rightarrow> error + int" where
  "py_int s =
     (let (neg, ds) =
        (case s of
           c # cs \<Rightarrow> if c = CHR ''-'' then (True, cs) else if c = CHR ''+'' then (False, cs)
                     else (False, s)
         | [] \<Rightarrow> (False, s))
      in if ds = [] then Inl ValueError
         else case digits_value 0 ds of
                None \<Rightarrow> Inl ValueError
              | Some n \<Rightarrow> Inr (if neg then - int n else int n))"

section \<open>The parsed MIDI file\<close>

text \<open>
  A message of a track, as the external parser gives it: its kind, its delta time in
  ticks (a variable-length quantity of the file, so never negative) and the fields of
  its kind. A note, a velocity and a channel are MIDI data: 7, 7 and 4 bits.
\<close>

datatype message =
    NoteOn (m_time: nat) "4 word" "7 word" "7 word"
  | SetTempo (m_time: nat) int
  | TimeSignature (m_time: nat) int int
  | OtherMessage (m_time: nat)

text \<open>\<^verbatim>\<open>message.note\<close>: only a note message has the attribute.\<close>

fun m_note :: "message \<Rightarrow> error + 7 word" where
  "m_note (NoteOn t channel note velocity) = Inr note"
| "m_note _ = Inl AttributeError"

record midifile =
  mid_filename :: string
  mid_ticks_per_beat :: int
  mid_tracks :: "message list list"

section \<open>\<^verbatim>\<open>class MidiProcessor\<close>\<close>

text \<open>
  The fields of \<^verbatim>\<open>self\<close>. The dicts \<^verbatim>\<open>beats\<close>, \<^verbatim>\<open>ordered_beats\<close> and \<^verbatim>\<open>instruments\<close>
  are association lists in insertion order, which is the order Python iterates them in.
\<close>

record processor =
  mid :: midifile
  filename :: string
  runtime :: string
  ticks_per_beat :: int
  beats :: "(nat \<times> message list) list"
  instruments :: "(string \<times> nat list) list"
  ordered_beats :: "(nat \<times> message list) list"
  numerator :: int
  denominator :: int
  tempo :: int
  abs_time_counter :: nat
  max_track_len :: nat
  bar_size :: int
  bar_counter :: int
  bpm :: pyfloat

text \<open>\<^verbatim>\<open>midi_file_path.split('/')[-1]\<close>\<close>

definition last_path_component :: "string \<Rightarrow> string" where
  "last_path_component path = rev (takeWhile (\<lambda>c. c \<noteq> CHR ''/'') (rev path))"

text \<open>
  \<^verbatim>\<open>__init__(self, midi_file_path, runtime)\<close>. \<open>MidiFile\<close> is the external parser
  \<^verbatim>\<open>mido.midifiles.MidiFile\<close>, a parameter of the model.
\<close>

definition init :: "(string \<Rightarrow> midifile) \<Rightarrow> string \<Rightarrow> string \<Rightarrow> processor" where
  "init MidiFile midi_file_path runtime' =
     \<lparr> mid = MidiFile midi_file_path,
       filename = last_path_component midi_file_path,
       runtime = runtime',
       ticks_per_beat = mid_ticks_per_beat (MidiFile midi_file_path),
       beats = [],
       instruments = [],
       ordered_beats = [],
       numerator = 4,
       denominator = 4,
       tempo = 0,
       abs_time_counter = 0,
       max_track_len = 0,
       bar_size = 0,
       bar_counter = 0,
       bpm = Finite 0 \<rparr>"

text \<open>
  The call \<^verbatim>\<open>MidiProcessor(*args)\<close> with positional arguments: Python binds them to
  the two parameters of \<^verbatim>\<open>__init__\<close> and raises TypeError when their number differs.
\<close>

definition MidiProcessor :: "(string \<Rightarrow> midifile) \<Rightarrow> string list \<Rightarrow> error + processor" where
  "MidiProcessor MidiFile args =
     (case args of
        [midi_file_path, runtime'] \<Rightarrow> Inr (init MidiFile midi_file_path runtime')
      | _ \<Rightarrow> Inl TypeError)"

subsection \<open>\<^verbatim>\<open>process_tracks\<close>\<close>

text \<open>\<^verbatim>\<open>list(filter(lambda b: b.note == message.note, l))\<close>\<close>

fun same_note :: "7 word \<Rightarrow> message list \<Rightarrow> error + message list" where
  "same_note note [] = Inr []"
| "same_note note (b # bs) =
     (case m_note b of
        Inl e \<Rightarrow> Inl e
      | Inr n \<Rightarrow>
          (case same_note note bs of
             Inl e \<Rightarrow> Inl e
           | Inr notes \<Rightarrow> Inr (if n = note then b # notes else notes)))"

text \<open>The body of the inner loop (lines 37 to 57) for one message.\<close>

definition process_message :: "processor \<Rightarrow> message \<Rightarrow> error + processor" where
  "process_message self0 message =
     (let self = self0\<lparr>abs_time_counter := abs_time_counter self0 + m_time message\<rparr>
      in case message of
           NoteOn t channel note velocity \<Rightarrow>
             if 0 < velocity \<and> channel = 9 then
               (case map_of (beats self) (abs_time_counter self) of
                  None \<Rightarrow>
                    Inr (self\<lparr>beats := beats self @ [(abs_time_counter self, [message])]\<rparr>)
                | Some l \<Rightarrow>
                    (case same_note note l of
                       Inl e \<Rightarrow> Inl e
                     | Inr notes \<Rightarrow>
                         if length notes = 0 then
                           Inr (self\<lparr>beats :=
                                  AList.map_entry (abs_time_counter self)
                                    (\<lambda>l. l @ [message]) (beats self)\<rparr>)
                         else Inr self))
             else Inr self
         | SetTempo t tempo' \<Rightarrow>
             (case int_truediv 1000000 tempo' of
                Inl e \<Rightarrow> Inl e
              | Inr q \<Rightarrow> Inr (self\<lparr>tempo := tempo', bpm := float_mul q (Finite 60)\<rparr>))
         | TimeSignature t numerator' denominator' \<Rightarrow>
             Inr (self\<lparr>numerator := numerator', denominator := denominator'\<rparr>)
         | OtherMessage t \<Rightarrow> Inr self)"

fun process_track :: "processor \<Rightarrow> message list \<Rightarrow> error + processor" where
  "process_track self [] = Inr self"
| "process_track self (message # rest) =
     (case process_message self message of
        Inl e \<Rightarrow> Inl e
      | Inr self' \<Rightarrow> process_track self' rest)"

fun process_tracks_loop :: "processor \<Rightarrow> message list list \<Rightarrow> error + processor" where
  "process_tracks_loop self [] = Inr self"
| "process_tracks_loop self (track # rest) =
     (case process_track (self\<lparr>abs_time_counter := 0\<rparr>) track of
        Inl e \<Rightarrow> Inl e
      | Inr self' \<Rightarrow>
          process_tracks_loop
            (if max_track_len self' < abs_time_counter self'
             then self'\<lparr>max_track_len := abs_time_counter self'\<rparr> else self')
            rest)"

definition process_tracks :: "processor \<Rightarrow> error + processor" where
  "process_tracks self = process_tracks_loop self (mid_tracks (mid self))"

subsection \<open>\<^verbatim>\<open>setup_variables\<close> and \<^verbatim>\<open>beats_by_instrument\<close>\<close>

text \<open>
  \<^verbatim>\<open>OrderedDict(sorted(self.beats.items()))\<close>: the items are compared as tuples, and
  the keys of a dict differ, so the order is that of the keys.
\<close>

definition setup_variables :: "processor \<Rightarrow> processor" where
  "setup_variables self = self\<lparr>ordered_beats := sort_key fst (beats self)\<rparr>"

text \<open>The inner loop of \<^verbatim>\<open>beats_by_instrument\<close> (lines 66 to 70) over one beat.\<close>

fun instruments_of_beat ::
  "nat \<Rightarrow> message list \<Rightarrow> (string \<times> nat list) list \<Rightarrow> error + (string \<times> nat list) list" where
  "instruments_of_beat abs_beat_time [] insts = Inr insts"
| "instruments_of_beat abs_beat_time (single_instrument # rest) insts =
     (case m_note single_instrument of
        Inl e \<Rightarrow> Inl e
      | Inr note \<Rightarrow>
          (let instrument_name = str_int (uint note);
               insts1 = (if map_of insts instrument_name = None
                         then insts @ [(instrument_name, [])] else insts);
               insts2 = AList.map_entry instrument_name (\<lambda>l. l @ [abs_beat_time]) insts1
           in instruments_of_beat abs_beat_time rest insts2))"

fun instruments_of_beats ::
  "(nat \<times> message list) list \<Rightarrow> (string \<times> nat list) list \<Rightarrow> error + (string \<times> nat list) list" where
  "instruments_of_beats [] insts = Inr insts"
| "instruments_of_beats ((abs_beat_time, instruments_list) # rest) insts =
     (case instruments_of_beat abs_beat_time instruments_list insts of
        Inl e \<Rightarrow> Inl e
      | Inr insts' \<Rightarrow> instruments_of_beats rest insts')"

definition beats_by_instrument :: "processor \<Rightarrow> error + processor" where
  "beats_by_instrument self =
     (case instruments_of_beats (ordered_beats self) (instruments self) of
        Inl e \<Rightarrow> Inl e
      | Inr insts \<Rightarrow> Inr (self\<lparr>instruments := insts\<rparr>))"

subsection \<open>\<^verbatim>\<open>count_instruments_by_beat\<close>\<close>

record ReturnData =
  mean_type :: string
  num_insts :: nat
  mean_value :: pyfloat

text \<open>
  The loop of lines 83 to 92 over the beats; the state is \<open>(inst_sum, binary_sum,
  max_instruments_at_once, min_instruments_at_once)\<close>.
\<close>

fun count_loop ::
  "(nat \<times> message list) list \<Rightarrow> nat \<times> nat \<times> nat \<times> nat \<Rightarrow> nat \<times> nat \<times> nat \<times> nat" where
  "count_loop [] st = st"
| "count_loop ((beat, inst_list) # rest)
     (inst_sum, binary_sum, max_instruments_at_once, min_instruments_at_once) =
     (let inst_count = length inst_list;
          max1 = (if inst_count > max_instruments_at_once then inst_count
                  else max_instruments_at_once);
          min1 = (if inst_count < min_instruments_at_once then inst_count
                  else min_instruments_at_once);
          binary_sum1 = (if inst_count \<ge> 2 then binary_sum + 1 else binary_sum)
      in count_loop rest (inst_sum + inst_count, binary_sum1, max1, min1))"

text \<open>Lines 94 to 104, from the values the loop leaves.\<close>

definition means_of ::
  "nat \<Rightarrow> nat \<Rightarrow> nat \<Rightarrow> nat \<Rightarrow> nat \<Rightarrow> error + ReturnData list" where
  "means_of n_insts n_beats inst_sum binary_sum min_instruments_at_once =
     (case float_of_int (int inst_sum) of Inl e \<Rightarrow> Inl e | Inr a \<Rightarrow>
      case float_of_int (int n_beats) of Inl e \<Rightarrow> Inl e | Inr n \<Rightarrow>
      case float_truediv a n of Inl e \<Rightarrow> Inl e | Inr arith_mean \<Rightarrow>
      case float_of_int (int binary_sum) of Inl e \<Rightarrow> Inl e | Inr b \<Rightarrow>
      case float_of_int (int n_beats) of Inl e \<Rightarrow> Inl e | Inr n' \<Rightarrow>
      case float_truediv b n' of Inl e \<Rightarrow> Inl e | Inr d \<Rightarrow>
      case float_of_int (int min_instruments_at_once) of Inl e \<Rightarrow> Inl e | Inr m \<Rightarrow>
        Inr [\<lparr>mean_type = ''am'', num_insts = n_insts, mean_value = arith_mean\<rparr>,
             \<lparr>mean_type = ''bm'', num_insts = n_insts, mean_value = float_add m d\<rparr>])"

text \<open>The printed lines, and the returned list or the exception.\<close>

definition count_instruments_by_beat ::
  "processor \<Rightarrow> string list \<times> (error + ReturnData list)" where
  "count_instruments_by_beat self =
     (let out = (if length (instruments self) < 2
                 then [''LESS THAN 2 INSTRUMENTS: '' @ mid_filename (mid self)] else []);
          (inst_sum, binary_sum, max_instruments_at_once, min_instruments_at_once) =
             count_loop (ordered_beats self) (0, 0, 1, length (instruments self))
      in (out, means_of (length (instruments self)) (length (ordered_beats self))
                 inst_sum binary_sum min_instruments_at_once))"

subsection \<open>\<^verbatim>\<open>get_tubs_placement\<close> and \<^verbatim>\<open>create_timelines\<close>\<close>

definition get_tubs_placement :: "processor \<Rightarrow> nat \<Rightarrow> error + int" where
  "get_tubs_placement self attack_time =
     (case float_of_int (int attack_time) of Inl e \<Rightarrow> Inl e | Inr a \<Rightarrow>
      case float_of_int (ticks_per_beat self) of Inl e \<Rightarrow> Inl e | Inr b \<Rightarrow>
      case float_truediv b (Finite 12) of Inl e \<Rightarrow> Inl e | Inr slot \<Rightarrow>
      case float_truediv a slot of Inl e \<Rightarrow> Inl e | Inr q \<Rightarrow>
        math_ceil q)"

text \<open>
  \<^verbatim>\<open>print_instrument_name\<close>: the printed line. \<open>enum_str i\<close> is
  \<^verbatim>\<open>str(PercussionDevicesEnum(i))\<close>, or the exception the lookup raises; the enum is
  another module's, a parameter of the model.
\<close>

definition print_instrument_name ::
  "(int \<Rightarrow> error + string) \<Rightarrow> string \<Rightarrow> error + string" where
  "print_instrument_name enum_str inst_id =
     (case py_int inst_id of
        Inl e \<Rightarrow> Inl e
      | Inr i \<Rightarrow> if 33 < i \<and> i \<le> 81 then enum_str i else Inr (str_int i))"

text \<open>
  The loop of lines 131 to 146 over the ticks of one instrument, from \<open>prev_tick\<close> and
  the string \<open>tubs\<close> built so far; it returns the final \<open>prev_tick\<close> and \<open>tubs\<close>.
\<close>

fun tubs_loop :: "processor \<Rightarrow> nat list \<Rightarrow> nat \<Rightarrow> string \<Rightarrow> error + nat \<times> string" where
  "tubs_loop self [] prev_tick tubs = Inr (prev_tick, tubs)"
| "tubs_loop self (tick # rest) prev_tick tubs =
     (case get_tubs_placement self tick of Inl e \<Rightarrow> Inl e | Inr tubs_tick \<Rightarrow>
      case get_tubs_placement self prev_tick of Inl e \<Rightarrow> Inl e | Inr tubs_prev_tick \<Rightarrow>
        (let tubs1 = tubs @ replicate (nat (tubs_tick - (tubs_prev_tick + 1))) CHR ''.'';
             tubs2 = (if tubs_prev_tick = tubs_tick \<and> tick > 0 then tubs1 else tubs1 @ ''X'');
             prev_tick' = (if tick = 0 then tick + 1 else tick)
         in tubs_loop self rest prev_tick' tubs2))"

text \<open>
  Lines 125 to 157 for one instrument: the string \<open>tubs\<close> and the two slots of the
  printed range, \<open>get_tubs_placement prev_tick\<close> and \<open>get_tubs_placement max_track_len\<close>.
\<close>

definition tubs_of_instrument :: "processor \<Rightarrow> nat list \<Rightarrow> error + string \<times> int \<times> int" where
  "tubs_of_instrument self beats_ticks =
     (case tubs_loop self beats_ticks 0 [] of Inl e \<Rightarrow> Inl e | Inr (prev_tick, tubs) \<Rightarrow>
      case get_tubs_placement self prev_tick of Inl e \<Rightarrow> Inl e | Inr first_slot \<Rightarrow>
      case get_tubs_placement self (max_track_len self) of Inl e \<Rightarrow> Inl e | Inr last_slot \<Rightarrow>
        (let tubs' = (if first_slot < last_slot
                      then tubs @ replicate (nat ((last_slot + 1) - (first_slot + 1))) CHR ''.''
                      else tubs)
         in Inr (tubs', first_slot, last_slot)))"

text \<open>The two lines printed for an instrument after its name (lines 155 to 157).\<close>

definition tubs_lines :: "string \<times> int \<times> int \<Rightarrow> string list" where
  "tubs_lines r =
     (case r of (tubs, first_slot, last_slot) \<Rightarrow>
        [tubs @ [CHR 0x09] @ str_int first_slot @ ''-'' @ str_int last_slot,
         ''[Length: '' @ str_int (int (length tubs)) @ '']''])"

text \<open>
  The loop of \<^verbatim>\<open>create_timelines\<close> over the instruments: the lines printed so far, and
  the exception that ended the loop, if one did.
\<close>

fun timelines_loop ::
  "(int \<Rightarrow> error + string) \<Rightarrow> processor \<Rightarrow> (string \<times> nat list) list \<Rightarrow> string list
     \<Rightarrow> string list \<times> error option" where
  "timelines_loop enum_str self [] out = (out, None)"
| "timelines_loop enum_str self ((instrument_id, beats_ticks) # rest) out =
     (case print_instrument_name enum_str instrument_id of
        Inl e \<Rightarrow> (out, Some e)
      | Inr name_line \<Rightarrow>
          (case tubs_of_instrument self beats_ticks of
             Inl e \<Rightarrow> (out @ [name_line], Some e)
           | Inr r \<Rightarrow> timelines_loop enum_str self rest (out @ [name_line] @ tubs_lines r)))"

definition create_timelines ::
  "(int \<Rightarrow> error + string) \<Rightarrow> processor \<Rightarrow> string list \<times> error option" where
  "create_timelines enum_str self =
     timelines_loop enum_str self (instruments self) [CHR 0x0A # ''INSTRUMENTOS:'']"

subsection \<open>\<^verbatim>\<open>format_results_for_file_writing\<close>\<close>

definition format_results_for_file_writing :: "processor \<Rightarrow> string" where
  "format_results_for_file_writing self =
     filename self @ [CHR 0x09, CHR 0x09] @ str_int (int (max_track_len self))
       @ [CHR 0x09, CHR 0x09] @ str_int (int (length (instruments self)))
       @ [CHR 0x09, CHR 0x09] @ str_int (numerator self) @ ''/'' @ str_int (denominator self)
       @ [CHR 0x09, CHR 0x09] @ str_int (ticks_per_beat self) @ [CHR 0x0A]"

section \<open>The script (\<^verbatim>\<open>__main__\<close>)\<close>

text \<open>
  Lines 183 to 190 on a constructed processor: the lines printed, and the exception
  that ended the run, if one did.
\<close>

definition run_processor ::
  "(int \<Rightarrow> error + string) \<Rightarrow> string \<Rightarrow> processor \<Rightarrow> string list \<times> error option" where
  "run_processor enum_str file processor0 =
     (case process_tracks processor0 of
        Inl e \<Rightarrow> ([], Some e)
      | Inr processor1 \<Rightarrow>
          if length (beats processor1) > 0 then
            (case beats_by_instrument (setup_variables processor1) of
               Inl e \<Rightarrow> ([], Some e)
             | Inr processor2 \<Rightarrow> create_timelines enum_str processor2)
          else ([''Found no beats on file '' @ file @ ''.''], None))"

text \<open>
  Lines 180 to 192. \<open>file\<close> is \<^verbatim>\<open>args.file\<close>; \<open>t0\<close>, \<open>t1\<close> and \<open>t2\<close> are the three
  results of \<^verbatim>\<open>strftime\<close>, in the order of the calls.
\<close>

definition main ::
  "(string \<Rightarrow> midifile) \<Rightarrow> (int \<Rightarrow> error + string) \<Rightarrow> string \<Rightarrow> string \<Rightarrow> string \<Rightarrow> string
     \<Rightarrow> string list \<times> error option" where
  "main MidiFile enum_str file t0 t1 t2 =
     (case MidiProcessor MidiFile [file, last_path_component file, t1] of
        Inl e \<Rightarrow> ([''Begin: '' @ t0], Some e)
      | Inr processor0 \<Rightarrow>
          (case run_processor enum_str file processor0 of
             (out, Some e) \<Rightarrow> ((''Begin: '' @ t0) # out, Some e)
           | (out, None) \<Rightarrow> ((''Begin: '' @ t0) # out @ [''End: '' @ t2], None)))"

section \<open>Notions the properties are stated with\<close>

text \<open>The sum of the delta times of a track: where its running tick counter ends.\<close>

definition track_ticks :: "message list \<Rightarrow> nat" where
  "track_ticks track = sum_list (map m_time track)"

fun is_time_signature :: "message \<Rightarrow> bool" where
  "is_time_signature (TimeSignature t n d) = True"
| "is_time_signature _ = False"

fun is_set_tempo :: "message \<Rightarrow> bool" where
  "is_set_tempo (SetTempo t tempo') = True"
| "is_set_tempo _ = False"

text \<open>A qualifying attack: a \<^verbatim>\<open>note_on\<close> with a positive velocity on channel 9.\<close>

fun attack :: "message \<Rightarrow> bool" where
  "attack (NoteOn t channel note velocity) = (0 < velocity \<and> channel = 9)"
| "attack _ = False"

text \<open>
  A well-formed list of events of one tick: not empty, qualifying attacks only, and no
  note twice. A well-formed \<^verbatim>\<open>beats\<close> dict has each key once and well-formed values.
\<close>

definition beat_ok :: "message list \<Rightarrow> bool" where
  "beat_ok l = (l \<noteq> [] \<and> list_all attack l \<and> distinct (map m_note l))"

definition beats_inv :: "(nat \<times> message list) list \<Rightarrow> bool" where
  "beats_inv bs = (distinct (map fst bs) \<and> list_all (\<lambda>(t, l). beat_ok l) bs)"

text \<open>
  A file of three tracks for the examples. At tick 100 of the first track notes 36 and
  38 attack, then note 36 again, then a note of velocity 0 and, 20 ticks later, a note
  on channel 3; the track ends at tick 150. The second track has no note and ends at
  tick 400; the third has one attack, at tick 30.
\<close>

definition example_file :: midifile where
  "example_file =
     \<lparr> mid_filename = ''songs/a.mid'',
       mid_ticks_per_beat = 480,
       mid_tracks =
         [[NoteOn 100 9 36 100, NoteOn 0 9 38 90, NoteOn 0 9 36 80, NoteOn 0 9 40 0,
           NoteOn 20 3 41 64, OtherMessage 30],
          [OtherMessage 400],
          [NoteOn 30 9 36 1]] \<rparr>"

text \<open>
  Scenario A of the specification: 480 ticks per beat, one instrument (note 36) attacking
  at ticks 0, 480 and 960, and a track that ends at tick 1440. \<open>scenario_A\<close> is the
  processor after the scan, the sort and the regrouping by instrument.
\<close>

definition scenario_A_file :: midifile where
  "scenario_A_file =
     \<lparr> mid_filename = ''songs/a.mid'',
       mid_ticks_per_beat = 480,
       mid_tracks =
         [[NoteOn 0 9 36 100, NoteOn 480 9 36 100, NoteOn 480 9 36 100, OtherMessage 480]] \<rparr>"

definition scenario_A :: processor where
  "scenario_A =
     (init (\<lambda>_. scenario_A_file) ''songs/a.mid'' [])
       \<lparr> beats := [(0, [NoteOn 0 9 36 100]), (480, [NoteOn 480 9 36 100]),
                   (960, [NoteOn 480 9 36 100])],
         instruments := [(''36'', [0, 480, 960])],
         ordered_beats := [(0, [NoteOn 0 9 36 100]), (480, [NoteOn 480 9 36 100]),
                           (960, [NoteOn 480 9 36 100])],
         abs_time_counter := 1440,
         max_track_len := 1440 \<rparr>"



text \<open>
  The number of distinct instruments of the events of one tick, and the four values the
  statistics are made of, over the beats in order: the sum of these numbers, the number
  of beats with two instruments or more, and the greatest and the least of these
  numbers, the greatest starting from 1 and the least from the number of instruments
  of the file.
\<close>

definition instrument_count :: "message list \<Rightarrow> nat" where
  "instrument_count l = card (set (map m_note l))"

definition inst_sum_of :: "(nat \<times> message list) list \<Rightarrow> nat" where
  "inst_sum_of obs = sum_list (map (\<lambda>(t, l). instrument_count l) obs)"

definition binary_sum_of :: "(nat \<times> message list) list \<Rightarrow> nat" where
  "binary_sum_of obs = length (filter (\<lambda>(t, l). 2 \<le> instrument_count l) obs)"

definition max_concurrent :: "(nat \<times> message list) list \<Rightarrow> nat" where
  "max_concurrent obs = Max (set (1 # map (\<lambda>(t, l). instrument_count l) obs))"

definition min_concurrent :: "nat \<Rightarrow> (nat \<times> message list) list \<Rightarrow> nat" where
  "min_concurrent n_insts obs = Min (set (n_insts # map (\<lambda>(t, l). instrument_count l) obs))"

text \<open>
  Scenario C of the specification: note 36 attacks at tick 0, and notes 36 and 38 attack
  at tick 500. \<open>scenario_C\<close> is the processor after the scan, the sort and the regrouping
  by instrument.
\<close>

definition scenario_C_file :: midifile where
  "scenario_C_file =
     \<lparr> mid_filename = ''songs/c.mid'',
       mid_ticks_per_beat = 480,
       mid_tracks = [[NoteOn 0 9 36 100, NoteOn 500 9 36 100, NoteOn 0 9 38 100]] \<rparr>"

definition scenario_C :: processor where
  "scenario_C =
     (init (\<lambda>_. scenario_C_file) ''songs/c.mid'' [])
       \<lparr> beats := [(0, [NoteOn 0 9 36 100]), (500, [NoteOn 500 9 36 100, NoteOn 0 9 38 100])],
         instruments := [(''36'', [0, 500]), (''38'', [500])],
         ordered_beats := [(0, [NoteOn 0 9 36 100]),
                           (500, [NoteOn 500 9 36 100, NoteOn 0 9 38 100])],
         abs_time_counter := 500,
         max_track_len := 500 \<rparr>"

text \<open>
  The name of the instrument of an event, as \<^verbatim>\<open>beats_by_instrument\<close> forms it, and the
  ticks of the events of one name, in the order the beats are iterated in.
\<close>

definition name_of :: "message \<Rightarrow> error + string" where
  "name_of m = (case m_note m of Inl e \<Rightarrow> Inl e | Inr n \<Rightarrow> Inr (str_int (uint n)))"

definition timeline_of :: "string \<Rightarrow> (nat \<times> message list) list \<Rightarrow> nat list" where
  "timeline_of name obs =
     concat (map (\<lambda>(t, l). map (\<lambda>m. t) (filter (\<lambda>m. name_of m = Inr name) l)) obs)"

text \<open>The list of ticks the dict \<^verbatim>\<open>instruments\<close> has for a name, empty when it has none.\<close>

definition ticks_of :: "(string \<times> nat list) list \<Rightarrow> string \<Rightarrow> nat list" where
  "ticks_of insts name = (case map_of insts name of None \<Rightarrow> [] | Some v \<Rightarrow> v)"

text \<open>
  A file without a qualifying attack: a note of velocity 0, a note on channel 3 and
  messages of other kinds.
\<close>

definition quiet_file :: midifile where
  "quiet_file =
     \<lparr> mid_filename = ''songs/q.mid'',
       mid_ticks_per_beat = 480,
       mid_tracks =
         [[NoteOn 0 9 40 0, NoteOn 20 3 41 64, OtherMessage 30],
          [TimeSignature 0 3 4, OtherMessage 10]] \<rparr>"

section \<open>Strings of ints\<close>

lemma digit_char_in: "d < 10 \<Longrightarrow> digit_char d \<in> set ''0123456789''"
  unfolding digit_char_def by (rule nth_mem) simp

lemma str_nat_digits: "set (str_nat n) \<subseteq> set ''0123456789''"
proof (induction n rule: str_nat.induct)
  case (1 n)
  show ?case
  proof (cases "n < 10")
    case True
    then have "str_nat n = [digit_char n]" by (subst str_nat.simps) simp
    with digit_char_in[OF True] show ?thesis by simp
  next
    case False
    have d: "digit_char (n mod 10) \<in> set ''0123456789''" by (rule digit_char_in) simp
    from False have "str_nat n = str_nat (n div 10) @ [digit_char (n mod 10)]"
      by (subst str_nat.simps) simp
    with 1[OF False] d show ?thesis by simp
  qed
qed

lemma str_int_chars: "set (str_int i) \<subseteq> set ''-0123456789''"
proof -
  have s: "set ''0123456789'' \<subseteq> set ''-0123456789''" by (simp add: subset_insertI)
  show ?thesis
  proof (cases "i < 0")
    case True
    then have "set (str_int i) = insert CHR ''-'' (set (str_nat (nat (- i))))"
      by (simp add: str_int_def)
    moreover have "CHR ''-'' \<in> set ''-0123456789''" by simp
    moreover have "set (str_nat (nat (- i))) \<subseteq> set ''-0123456789''"
      using str_nat_digits[of "nat (- i)"] s by (rule order_trans)
    ultimately show ?thesis by (simp only: insert_subset simp_thms)
  next
    case False
    then have "str_int i = str_nat (nat i)" by (simp add: str_int_def)
    moreover have "set (str_nat (nat i)) \<subseteq> set ''-0123456789''"
      using str_nat_digits[of "nat i"] s by (rule order_trans)
    ultimately show ?thesis by simp
  qed
qed

lemma str_int_no_tab: "CHR 0x09 \<notin> set (str_int i)"
proof -
  have "CHR 0x09 \<notin> set ''-0123456789''" by simp
  then show ?thesis using subsetD[OF str_int_chars[of i]] by (rule contrapos_nn)
qed

lemma str_int_no_newline: "CHR 0x0A \<notin> set (str_int i)"
proof -
  have "CHR 0x0A \<notin> set ''-0123456789''" by simp
  then show ?thesis using subsetD[OF str_int_chars[of i]] by (rule contrapos_nn)
qed

section \<open>The report record\<close>

text \<open>
  Claim C9. \<^verbatim>\<open>format_results_for_file_writing\<close> returns the file name, the length of the
  longest track, the number of instruments, numerator \<open>/\<close> denominator and the ticks per
  beat, in this order, with two tab characters between one field and the next and one
  newline at the end. The numeric fields are decimal strings, which hold neither a tab
  nor a newline, so each separator is two tabs and no more, and the only newline after
  the file name is the last character.
\<close>

theorem format_results_record:
  "format_results_for_file_writing self =
     filename self @ [CHR 0x09, CHR 0x09] @ str_int (int (max_track_len self))
       @ [CHR 0x09, CHR 0x09] @ str_int (int (length (instruments self)))
       @ [CHR 0x09, CHR 0x09] @ str_int (numerator self) @ [CHR ''/''] @ str_int (denominator self)
       @ [CHR 0x09, CHR 0x09] @ str_int (ticks_per_beat self) @ [CHR 0x0A]
   \<and> CHR 0x09 \<notin> set (str_int (int (max_track_len self)))
   \<and> CHR 0x09 \<notin> set (str_int (int (length (instruments self))))
   \<and> CHR 0x09 \<notin> set (str_int (numerator self))
   \<and> CHR 0x09 \<notin> set (str_int (denominator self))
   \<and> CHR 0x09 \<notin> set (str_int (ticks_per_beat self))
   \<and> CHR 0x0A \<notin> set (str_int (int (max_track_len self)))
   \<and> CHR 0x0A \<notin> set (str_int (int (length (instruments self))))
   \<and> CHR 0x0A \<notin> set (str_int (numerator self))
   \<and> CHR 0x0A \<notin> set (str_int (denominator self))
   \<and> CHR 0x0A \<notin> set (str_int (ticks_per_beat self))"
  by (simp add: format_results_for_file_writing_def str_int_no_tab str_int_no_newline)

text \<open>The record of a file \<^verbatim>\<open>songs/a.mid\<close> with one instrument, 1440 ticks and no meta event.\<close>

lemma format_results_example:
  "format_results_for_file_writing
     ((init (\<lambda>_. \<lparr>mid_filename = ''songs/a.mid'', mid_ticks_per_beat = 480, mid_tracks = []\<rparr>)
        ''songs/a.mid'' '''')\<lparr>max_track_len := 1440, instruments := [(''36'', [0])]\<rparr>)
   = ''a.mid'' @ [CHR 0x09, CHR 0x09] @ ''1440'' @ [CHR 0x09, CHR 0x09] @ ''1''
       @ [CHR 0x09, CHR 0x09] @ ''4/4'' @ [CHR 0x09, CHR 0x09] @ ''480'' @ [CHR 0x0A]"
  by (simp add: format_results_for_file_writing_def init_def last_path_component_def
      str_int_def str_nat.simps digit_char_def)

section \<open>The script\<close>

text \<open>
  On a constructed processor the guard of line 184 works as meant: when the scan
  leaves no beat, the only line printed is the message, and nothing else runs.
\<close>

lemma run_processor_no_beats:
  "process_tracks processor0 = Inr processor1 \<Longrightarrow> beats processor1 = [] \<Longrightarrow>
   run_processor enum_str file processor0 = ([''Found no beats on file '' @ file @ ''.''], None)"
  by (simp add: run_processor_def)

text \<open>
  A defect of its own, before the guard: line 181 calls \<^verbatim>\<open>MidiProcessor\<close> with three
  positional arguments and \<^verbatim>\<open>__init__\<close> takes two, so the script as written prints its
  first line and ends with a TypeError, whatever the file holds.
\<close>

lemma script_raises_TypeError:
  "main MidiFile enum_str file t0 t1 t2 = ([''Begin: '' @ t0], Some TypeError)"
  by (simp add: main_def MidiProcessor_def)

section \<open>The scan: \<^verbatim>\<open>process_tracks\<close>\<close>

lemma process_message_counter:
  "process_message self message = Inr self' \<Longrightarrow>
   abs_time_counter self' = abs_time_counter self + m_time message"
  by (cases message)
    (auto simp: process_message_def Let_def split: if_splits option.splits sum.splits)

lemma process_message_max_track_len:
  "process_message self message = Inr self' \<Longrightarrow> max_track_len self' = max_track_len self"
  by (cases message)
    (auto simp: process_message_def Let_def split: if_splits option.splits sum.splits)

lemma process_message_mid:
  "process_message self message = Inr self' \<Longrightarrow> mid self' = mid self"
  by (cases message)
    (auto simp: process_message_def Let_def split: if_splits option.splits sum.splits)

lemma process_track_counter:
  "process_track self track = Inr self' \<Longrightarrow>
   abs_time_counter self' = abs_time_counter self + track_ticks track"
proof (induction track arbitrary: self)
  case Nil
  then show ?case by (simp add: track_ticks_def)
next
  case (Cons message rest)
  from Cons.prems obtain self1 where
    m: "process_message self message = Inr self1" and r: "process_track self1 rest = Inr self'"
    by (auto split: sum.splits)
  from Cons.IH[OF r] process_message_counter[OF m] show ?case
    by (simp add: track_ticks_def)
qed

lemma process_track_max_track_len:
  "process_track self track = Inr self' \<Longrightarrow> max_track_len self' = max_track_len self"
proof (induction track arbitrary: self)
  case Nil
  then show ?case by simp
next
  case (Cons message rest)
  from Cons.prems obtain self1 where
    m: "process_message self message = Inr self1" and r: "process_track self1 rest = Inr self'"
    by (auto split: sum.splits)
  from Cons.IH[OF r] process_message_max_track_len[OF m] show ?case by simp
qed

lemma process_tracks_loop_max_track_len:
  "process_tracks_loop self ts = Inr self' \<Longrightarrow>
   max_track_len self' = Max (set (max_track_len self # map track_ticks ts))"
proof (induction ts arbitrary: self)
  case Nil
  then show ?case by simp
next
  case (Cons track rest)
  from Cons.prems obtain self1 where
    t: "process_track (self\<lparr>abs_time_counter := 0\<rparr>) track = Inr self1" and
    r: "process_tracks_loop
          (if max_track_len self1 < abs_time_counter self1
           then self1\<lparr>max_track_len := abs_time_counter self1\<rparr> else self1) rest = Inr self'"
    by (auto split: sum.splits)
  have c: "abs_time_counter self1 = track_ticks track"
    using process_track_counter[OF t] by simp
  have m: "max_track_len self1 = max_track_len self"
    using process_track_max_track_len[OF t] by simp
  have "max_track_len self' =
        Max (set (max (max_track_len self) (track_ticks track) # map track_ticks rest))"
    using Cons.IH[OF r] c m by (auto simp: max_def split: if_splits)
  also have "\<dots> = Max (set (max_track_len self # map track_ticks (track # rest)))"
    by (cases "rest = []") (simp_all add: max.assoc)
  finally show ?case .
qed


lemma attack_note: "attack m \<Longrightarrow> \<exists>note. m_note m = Inr note"
  by (cases m) simp_all

lemma same_note_filter:
  "list_all attack l \<Longrightarrow> same_note note l = Inr (filter (\<lambda>b. m_note b = Inr note) l)"
proof (induction l)
  case Nil
  then show ?case by simp
next
  case (Cons b bs)
  then obtain n where "m_note b = Inr n" using attack_note[of b] by auto
  with Cons show ?case by simp
qed

lemma set_map_entry:
  "(k, v) \<in> set (AList.map_entry k' f al) \<Longrightarrow>
   (k, v) \<in> set al \<or> (\<exists>v0. (k', v0) \<in> set al \<and> k = k' \<and> v = f v0)"
  by (induction al) (auto split: if_splits)

lemma beats_inv_append:
  assumes "beats_inv bs" and "map_of bs t = None" and "attack m"
  shows "beats_inv (bs @ [(t, [m])])"
proof -
  from assms(2) have "t \<notin> fst ` set bs" by (simp add: map_of_eq_None_iff)
  with assms(1,3) show ?thesis by (simp add: beats_inv_def beat_ok_def)
qed

lemma beats_inv_map_entry:
  assumes inv: "beats_inv bs" and l: "map_of bs t = Some l" and a: "attack m"
    and new: "filter (\<lambda>b. m_note b = m_note m) l = []"
  shows "beats_inv (AList.map_entry t (\<lambda>l. l @ [m]) bs)"
proof -
  from inv have d: "distinct (map fst bs)" and ok: "\<And>k v. (k, v) \<in> set bs \<Longrightarrow> beat_ok v"
    by (auto simp: beats_inv_def list_all_iff)
  have "beat_ok v" if "(k, v) \<in> set (AList.map_entry t (\<lambda>l. l @ [m]) bs)" for k v
  proof -
    from set_map_entry[OF that] consider "(k, v) \<in> set bs"
      | v0 where "(t, v0) \<in> set bs" "v = v0 @ [m]" by blast
    then show ?thesis
    proof cases
      case 1
      then show ?thesis by (rule ok)
    next
      case 2
      from d 2(1) have "map_of bs t = Some v0" by simp
      with l have "v0 = l" by simp
      from 2(1) have okl: "beat_ok l" unfolding \<open>v0 = l\<close> by (rule ok)
      from new have "m_note m \<notin> set (map m_note l)"
        by (auto simp: filter_empty_conv)
      with okl a show ?thesis unfolding 2(2) \<open>v0 = l\<close>
        by (simp add: beat_ok_def)
    qed
  qed
  with distinct_map_entry[OF d] show ?thesis
    by (auto simp: beats_inv_def list_all_iff)
qed

lemma process_message_beats_inv:
  assumes "process_message self message = Inr self'" and "beats_inv (beats self)"
  shows "beats_inv (beats self')"
proof (cases message)
  case (NoteOn t channel nt velocity)
  show ?thesis
  proof (cases "0 < velocity \<and> channel = 9")
    case False
    with assms NoteOn show ?thesis by (auto simp: process_message_def Let_def)
  next
    case True
    then have a: "attack message" by (simp add: NoteOn)
    let ?t = "abs_time_counter self + t"
    show ?thesis
    proof (cases "map_of (beats self) ?t")
      case None
      with assms(1) NoteOn True have "beats self' = beats self @ [(?t, [message])]"
        by (auto simp: process_message_def Let_def)
      with beats_inv_append[OF assms(2) None a] show ?thesis by simp
    next
      case (Some l)
      from assms(2) have "beat_ok l" using map_of_SomeD[OF Some]
        by (auto simp: beats_inv_def list_all_iff)
      then have "list_all attack l" by (simp add: beat_ok_def)
      from same_note_filter[OF this]
      have sn: "same_note nt l = Inr (filter (\<lambda>b. m_note b = Inr nt) l)" .
      show ?thesis
      proof (cases "filter (\<lambda>b. m_note b = Inr nt) l = []")
        case True2: True
        with assms(1) NoteOn True Some sn
        have "beats self' = AList.map_entry ?t (\<lambda>l. l @ [message]) (beats self)"
          by (auto simp: process_message_def Let_def)
        moreover have "filter (\<lambda>b. m_note b = m_note message) l = []"
          using True2 by (simp add: NoteOn)
        ultimately show ?thesis using beats_inv_map_entry[OF assms(2) Some a] by simp
      next
        case False
        with assms NoteOn True Some sn show ?thesis
          by (auto simp: process_message_def Let_def)
      qed
    qed
  qed
next
  case (SetTempo t tempo')
  with assms show ?thesis
    by (auto simp: process_message_def Let_def split: sum.splits)
next
  case (TimeSignature t n d)
  with assms show ?thesis by (auto simp: process_message_def Let_def)
next
  case (OtherMessage t)
  with assms show ?thesis by (auto simp: process_message_def Let_def)
qed

lemma process_track_beats_inv:
  "process_track self track = Inr self' \<Longrightarrow> beats_inv (beats self) \<Longrightarrow> beats_inv (beats self')"
proof (induction track arbitrary: self)
  case Nil
  then show ?case by simp
next
  case (Cons message rest)
  from Cons.prems(1) obtain self1 where
    m: "process_message self message = Inr self1" and r: "process_track self1 rest = Inr self'"
    by (auto split: sum.splits)
  from Cons.IH[OF r process_message_beats_inv[OF m Cons.prems(2)]] show ?case .
qed

lemma process_tracks_loop_beats_inv:
  "process_tracks_loop self ts = Inr self' \<Longrightarrow> beats_inv (beats self) \<Longrightarrow>
   beats_inv (beats self')"
proof (induction ts arbitrary: self)
  case Nil
  then show ?case by simp
next
  case (Cons track rest)
  from Cons.prems(1) obtain self1 where
    t: "process_track (self\<lparr>abs_time_counter := 0\<rparr>) track = Inr self1" and
    r: "process_tracks_loop
          (if max_track_len self1 < abs_time_counter self1
           then self1\<lparr>max_track_len := abs_time_counter self1\<rparr> else self1) rest = Inr self'"
    by (auto split: sum.splits)
  have "beats_inv (beats self1)"
    using process_track_beats_inv[OF t] Cons.prems(2) by simp
  then have "beats_inv (beats (if max_track_len self1 < abs_time_counter self1
           then self1\<lparr>max_track_len := abs_time_counter self1\<rparr> else self1))" by simp
  from Cons.IH[OF r this] show ?case .
qed

lemma process_tracks_beats_inv:
  "process_tracks (init MidiFile path rt) = Inr self' \<Longrightarrow> beats_inv (beats self')"
  unfolding process_tracks_def
  by (erule process_tracks_loop_beats_inv) (simp add: init_def beats_inv_def)

lemma process_message_time_signature:
  "\<not> is_time_signature message \<Longrightarrow> process_message self message = Inr self' \<Longrightarrow>
   numerator self' = numerator self \<and> denominator self' = denominator self"
  by (cases message)
    (auto simp: process_message_def Let_def split: if_splits option.splits sum.splits)

lemma process_message_tempo:
  "\<not> is_set_tempo message \<Longrightarrow> process_message self message = Inr self' \<Longrightarrow>
   tempo self' = tempo self"
  by (cases message)
    (auto simp: process_message_def Let_def split: if_splits option.splits sum.splits)

lemma process_message_total:
  assumes "\<not> is_set_tempo message" and "beats_inv (beats self)"
  shows "\<exists>self'. process_message self message = Inr self'"
proof (cases message)
  case (NoteOn t channel nt velocity)
  show ?thesis
  proof (cases "map_of (beats self) (abs_time_counter self + t)")
    case None
    then show ?thesis by (simp add: process_message_def NoteOn Let_def)
  next
    case (Some l)
    from assms(2) have "beat_ok l" using map_of_SomeD[OF Some]
      by (auto simp: beats_inv_def list_all_iff)
    then have "list_all attack l" by (simp add: beat_ok_def)
    from same_note_filter[OF this] Some show ?thesis
      by (simp add: process_message_def NoteOn Let_def)
  qed
next
  case (SetTempo t tempo')
  with assms show ?thesis by simp
next
  case (TimeSignature t n d)
  then show ?thesis by (simp add: process_message_def)
next
  case (OtherMessage t)
  then show ?thesis by (simp add: process_message_def)
qed

lemma process_track_time_signature:
  "\<forall>m \<in> set track. \<not> is_time_signature m \<Longrightarrow> process_track self track = Inr self' \<Longrightarrow>
   numerator self' = numerator self \<and> denominator self' = denominator self"
proof (induction track arbitrary: self)
  case Nil
  then show ?case by simp
next
  case (Cons message rest)
  from Cons.prems(2) obtain self1 where
    m: "process_message self message = Inr self1" and r: "process_track self1 rest = Inr self'"
    by (auto split: sum.splits)
  from Cons.prems(1) have "\<not> is_time_signature message" "\<forall>m \<in> set rest. \<not> is_time_signature m"
    by simp_all
  from process_message_time_signature[OF this(1) m] Cons.IH[OF this(2) r] show ?case by simp
qed

lemma process_track_tempo:
  "\<forall>m \<in> set track. \<not> is_set_tempo m \<Longrightarrow> process_track self track = Inr self' \<Longrightarrow>
   tempo self' = tempo self"
proof (induction track arbitrary: self)
  case Nil
  then show ?case by simp
next
  case (Cons message rest)
  from Cons.prems(2) obtain self1 where
    m: "process_message self message = Inr self1" and r: "process_track self1 rest = Inr self'"
    by (auto split: sum.splits)
  from Cons.prems(1) have "\<not> is_set_tempo message" "\<forall>m \<in> set rest. \<not> is_set_tempo m"
    by simp_all
  from process_message_tempo[OF this(1) m] Cons.IH[OF this(2) r] show ?case by simp
qed

lemma process_track_total:
  "\<forall>m \<in> set track. \<not> is_set_tempo m \<Longrightarrow> beats_inv (beats self) \<Longrightarrow>
   \<exists>self'. process_track self track = Inr self'"
proof (induction track arbitrary: self)
  case Nil
  then show ?case by simp
next
  case (Cons message rest)
  from Cons.prems(1) have h: "\<not> is_set_tempo message" "\<forall>m \<in> set rest. \<not> is_set_tempo m"
    by simp_all
  from process_message_total[OF h(1) Cons.prems(2)] obtain self1 where
    m: "process_message self message = Inr self1" by blast
  from Cons.IH[OF h(2) process_message_beats_inv[OF m Cons.prems(2)]] m show ?case by simp
qed

lemma process_tracks_loop_time_signature:
  "\<forall>track \<in> set ts. \<forall>m \<in> set track. \<not> is_time_signature m \<Longrightarrow>
   process_tracks_loop self ts = Inr self' \<Longrightarrow>
   numerator self' = numerator self \<and> denominator self' = denominator self"
proof (induction ts arbitrary: self)
  case Nil
  then show ?case by simp
next
  case (Cons track rest)
  from Cons.prems(2) obtain self1 where
    t: "process_track (self\<lparr>abs_time_counter := 0\<rparr>) track = Inr self1" and
    r: "process_tracks_loop
          (if max_track_len self1 < abs_time_counter self1
           then self1\<lparr>max_track_len := abs_time_counter self1\<rparr> else self1) rest = Inr self'"
    by (auto split: sum.splits)
  from Cons.prems(1) have h: "\<forall>m \<in> set track. \<not> is_time_signature m"
    "\<forall>track \<in> set rest. \<forall>m \<in> set track. \<not> is_time_signature m" by simp_all
  from process_track_time_signature[OF h(1) t] Cons.IH[OF h(2) r] show ?case by simp
qed

lemma process_tracks_loop_tempo:
  "\<forall>track \<in> set ts. \<forall>m \<in> set track. \<not> is_set_tempo m \<Longrightarrow>
   process_tracks_loop self ts = Inr self' \<Longrightarrow> tempo self' = tempo self"
proof (induction ts arbitrary: self)
  case Nil
  then show ?case by simp
next
  case (Cons track rest)
  from Cons.prems(2) obtain self1 where
    t: "process_track (self\<lparr>abs_time_counter := 0\<rparr>) track = Inr self1" and
    r: "process_tracks_loop
          (if max_track_len self1 < abs_time_counter self1
           then self1\<lparr>max_track_len := abs_time_counter self1\<rparr> else self1) rest = Inr self'"
    by (auto split: sum.splits)
  from Cons.prems(1) have h: "\<forall>m \<in> set track. \<not> is_set_tempo m"
    "\<forall>track \<in> set rest. \<forall>m \<in> set track. \<not> is_set_tempo m" by simp_all
  from process_track_tempo[OF h(1) t] Cons.IH[OF h(2) r] show ?case by simp
qed

lemma process_tracks_loop_total:
  "\<forall>track \<in> set ts. \<forall>m \<in> set track. \<not> is_set_tempo m \<Longrightarrow> beats_inv (beats self) \<Longrightarrow>
   \<exists>self'. process_tracks_loop self ts = Inr self'"
proof (induction ts arbitrary: self)
  case Nil
  then show ?case by simp
next
  case (Cons track rest)
  from Cons.prems(1) have h: "\<forall>m \<in> set track. \<not> is_set_tempo m"
    "\<forall>track \<in> set rest. \<forall>m \<in> set track. \<not> is_set_tempo m" by simp_all
  from Cons.prems(2) have "beats_inv (beats (self\<lparr>abs_time_counter := 0\<rparr>))" by simp
  from process_track_total[OF h(1) this] obtain self1 where
    t: "process_track (self\<lparr>abs_time_counter := 0\<rparr>) track = Inr self1" by blast
  have "beats_inv (beats self1)"
    using process_track_beats_inv[OF t] Cons.prems(2) by simp
  then have "beats_inv (beats (if max_track_len self1 < abs_time_counter self1
           then self1\<lparr>max_track_len := abs_time_counter self1\<rparr> else self1))" by simp
  from Cons.IH[OF h(2) this] t show ?case by simp
qed

text \<open>
  The scan of the example file: the second attack of note 36 at tick 100, the note of
  velocity 0 and the note of channel 3 leave no trace, and the longest track is the
  second one.
\<close>

lemma example_file_scan:
  "process_tracks (init (\<lambda>_. example_file) ''songs/a.mid'' []) =
     Inr ((init (\<lambda>_. example_file) ''songs/a.mid'' [])
          \<lparr> beats := [(100, [NoteOn 100 9 36 100, NoteOn 0 9 38 90]), (30, [NoteOn 30 9 36 1])],
            abs_time_counter := 30, max_track_len := 400 \<rparr>)"
  by (simp add: process_tracks_def init_def example_file_def process_message_def Let_def)

text \<open>
  Claim C6. After \<^verbatim>\<open>process_tracks\<close> on a fresh processor, \<^verbatim>\<open>max_track_len\<close> is the
  greatest of the final tick counters of the tracks, each counter being the sum of the
  delta times of all the messages of its track, whatever their kind
  (\<open>process_track_counter\<close>). Every track counts, not the last one only. With no track
  at all the value is 0, the initial one.
\<close>

theorem max_track_len_longest_track:
  assumes "process_tracks (init MidiFile path rt) = Inr self'"
  shows "max_track_len self' = Max (set (0 # map track_ticks (mid_tracks (MidiFile path))))
       \<and> (mid_tracks (MidiFile path) \<noteq> [] \<longrightarrow>
            max_track_len self' = Max (track_ticks ` set (mid_tracks (MidiFile path))))"
proof -
  let ?ts = "mid_tracks (MidiFile path)"
  from assms have "process_tracks_loop (init MidiFile path rt) ?ts = Inr self'"
    by (simp add: process_tracks_def init_def)
  from process_tracks_loop_max_track_len[OF this]
  have m: "max_track_len self' = Max (set (0 # map track_ticks ?ts))"
    by (simp add: init_def)
  have "max_track_len self' = Max (track_ticks ` set ?ts)" if "?ts \<noteq> []"
  proof -
    from that have "Max (insert 0 (track_ticks ` set ?ts)) = max 0 (Max (track_ticks ` set ?ts))"
      by (intro Max_insert) simp_all
    with m show ?thesis by simp
  qed
  with m show ?thesis by simp
qed

text \<open>
  In the example file the tracks end at ticks 150, 400 and 30: the result is 400, the
  length of the second track.
\<close>

theorem max_track_len_longest_track_witness:
  "\<exists>self'. process_tracks (init (\<lambda>_. example_file) ''songs/a.mid'' []) = Inr self'
     \<and> map track_ticks (mid_tracks example_file) = [150, 400, 30]
     \<and> max_track_len self' = 400"
proof -
  let ?s = "(init (\<lambda>_. example_file) ''songs/a.mid'' [])
          \<lparr> beats := [(100, [NoteOn 100 9 36 100, NoteOn 0 9 38 90]), (30, [NoteOn 30 9 36 1])],
            abs_time_counter := 30, max_track_len := 400 \<rparr>"
  have t: "map track_ticks (mid_tracks example_file) = [150, 400, 30]"
    by (simp add: example_file_def track_ticks_def)
  from max_track_len_longest_track[OF example_file_scan, THEN conjunct1]
  have "max_track_len ?s = Max (set (0 # map track_ticks (mid_tracks example_file)))" .
  then have m: "max_track_len ?s = 400" unfolding t by simp
  show ?thesis
    by (intro exI[of _ ?s] conjI) (fact example_file_scan, fact t, fact m)
qed

text \<open>
  Claim C3. After \<^verbatim>\<open>process_tracks\<close> on a fresh processor, the list of events stored
  at any tick is not empty, holds only \<^verbatim>\<open>note_on\<close> messages with a positive velocity on
  channel 9, and holds no note twice: an attack whose note is already there at that
  tick is not stored.
\<close>

theorem beats_hold_distinct_attacks:
  assumes "process_tracks (init MidiFile path rt) = Inr self'" and "(t, l) \<in> set (beats self')"
  shows "l \<noteq> [] \<and> list_all attack l \<and> distinct (map m_note l)"
proof -
  from process_tracks_beats_inv[OF assms(1)] assms(2) have "beat_ok l"
    by (auto simp: beats_inv_def list_all_iff)
  then show ?thesis by (simp add: beat_ok_def)
qed

text \<open>
  In the example file notes 36 and 38 attack at tick 100 and note 36 attacks there again:
  the list of tick 100 has the first two messages only.
\<close>

theorem beats_hold_distinct_attacks_witness:
  "(\<exists>self'. process_tracks (init (\<lambda>_. example_file) ''songs/a.mid'' []) = Inr self'
       \<and> beats self' = [(100, [NoteOn 100 9 36 100, NoteOn 0 9 38 90]), (30, [NoteOn 30 9 36 1])])
   \<and> [NoteOn 100 9 36 100, NoteOn 0 9 38 90] \<noteq> []
   \<and> list_all attack [NoteOn 100 9 36 100, NoteOn 0 9 38 90]
   \<and> distinct (map m_note [NoteOn 100 9 36 100, NoteOn 0 9 38 90])"
proof -
  let ?s = "(init (\<lambda>_. example_file) ''songs/a.mid'' [])
          \<lparr> beats := [(100, [NoteOn 100 9 36 100, NoteOn 0 9 38 90]), (30, [NoteOn 30 9 36 1])],
            abs_time_counter := 30, max_track_len := 400 \<rparr>"
  have b: "beats ?s = [(100, [NoteOn 100 9 36 100, NoteOn 0 9 38 90]), (30, [NoteOn 30 9 36 1])]"
    by simp
  have "(100, [NoteOn 100 9 36 100, NoteOn 0 9 38 90]) \<in> set (beats ?s)" by simp
  note c = beats_hold_distinct_attacks[OF example_file_scan this]
  have e: "\<exists>self'. process_tracks (init (\<lambda>_. example_file) ''songs/a.mid'' []) = Inr self'
       \<and> beats self' = [(100, [NoteOn 100 9 36 100, NoteOn 0 9 38 90]), (30, [NoteOn 30 9 36 1])]"
    by (intro exI[of _ ?s] conjI) (fact example_file_scan, fact b)
  from e c show ?thesis by (rule conjI)
qed

lemma str_int_4: "str_int 4 = ''4''"
  by (simp add: str_int_def str_nat.simps digit_char_def)

text \<open>
  Claim C10. When no track holds a time-signature message, the numerator and the
  denominator after \<^verbatim>\<open>process_tracks\<close> are those of \<^verbatim>\<open>__init__\<close>, 4 and 4, and the
  report record shows \<open>4/4\<close>. When no track holds a tempo message, \<^verbatim>\<open>process_tracks\<close>
  returns (a tempo message is its only source of an exception) and the tempo is the
  initial 0.
\<close>

theorem default_time_signature_and_tempo:
  "((\<forall>track \<in> set (mid_tracks (MidiFile path)). \<forall>m \<in> set track. \<not> is_time_signature m) \<longrightarrow>
      (\<forall>self'. process_tracks (init MidiFile path rt) = Inr self' \<longrightarrow>
         numerator self' = 4 \<and> denominator self' = 4
         \<and> format_results_for_file_writing self' =
             filename self' @ [CHR 0x09, CHR 0x09] @ str_int (int (max_track_len self'))
               @ [CHR 0x09, CHR 0x09] @ str_int (int (length (instruments self')))
               @ [CHR 0x09, CHR 0x09] @ ''4/4''
               @ [CHR 0x09, CHR 0x09] @ str_int (ticks_per_beat self') @ [CHR 0x0A]))
   \<and> ((\<forall>track \<in> set (mid_tracks (MidiFile path)). \<forall>m \<in> set track. \<not> is_set_tempo m) \<longrightarrow>
      (\<exists>self'. process_tracks (init MidiFile path rt) = Inr self' \<and> tempo self' = 0))"
proof (intro conjI impI allI)
  fix self'
  assume h: "\<forall>track \<in> set (mid_tracks (MidiFile path)). \<forall>m \<in> set track. \<not> is_time_signature m"
    and r: "process_tracks (init MidiFile path rt) = Inr self'"
  from r have "process_tracks_loop (init MidiFile path rt) (mid_tracks (MidiFile path)) = Inr self'"
    by (simp add: process_tracks_def init_def)
  from process_tracks_loop_time_signature[OF h this]
  show n: "numerator self' = 4" and d: "denominator self' = 4" by (simp_all add: init_def)
  then show "format_results_for_file_writing self' =
             filename self' @ [CHR 0x09, CHR 0x09] @ str_int (int (max_track_len self'))
               @ [CHR 0x09, CHR 0x09] @ str_int (int (length (instruments self')))
               @ [CHR 0x09, CHR 0x09] @ ''4/4''
               @ [CHR 0x09, CHR 0x09] @ str_int (ticks_per_beat self') @ [CHR 0x0A]"
    by (simp add: format_results_for_file_writing_def str_int_4)
next
  assume h: "\<forall>track \<in> set (mid_tracks (MidiFile path)). \<forall>m \<in> set track. \<not> is_set_tempo m"
  have "beats_inv (beats (init MidiFile path rt))" by (simp add: init_def beats_inv_def)
  from process_tracks_loop_total[OF h this] obtain self' where
    r: "process_tracks_loop (init MidiFile path rt) (mid_tracks (MidiFile path)) = Inr self'"
    by blast
  from process_tracks_loop_tempo[OF h r] have "tempo self' = 0" by (simp add: init_def)
  moreover from r have "process_tracks (init MidiFile path rt) = Inr self'"
    by (simp add: process_tracks_def init_def)
  ultimately show "\<exists>self'. process_tracks (init MidiFile path rt) = Inr self' \<and> tempo self' = 0"
    by blast
qed

text \<open>
  The example file has neither message: 4/4 in the record, and tempo 0.
\<close>

theorem default_time_signature_and_tempo_witness:
  "\<exists>self'. process_tracks (init (\<lambda>_. example_file) ''songs/a.mid'' []) = Inr self'
     \<and> numerator self' = 4 \<and> denominator self' = 4 \<and> tempo self' = 0
     \<and> format_results_for_file_writing self' =
          ''a.mid'' @ [CHR 0x09, CHR 0x09] @ ''400'' @ [CHR 0x09, CHR 0x09] @ ''0''
            @ [CHR 0x09, CHR 0x09] @ ''4/4'' @ [CHR 0x09, CHR 0x09] @ ''480'' @ [CHR 0x0A]"
proof -
  let ?s = "(init (\<lambda>_. example_file) ''songs/a.mid'' [])
          \<lparr> beats := [(100, [NoteOn 100 9 36 100, NoteOn 0 9 38 90]), (30, [NoteOn 30 9 36 1])],
            abs_time_counter := 30, max_track_len := 400 \<rparr>"
  have ts: "\<forall>track \<in> set (mid_tracks ((\<lambda>_. example_file) ''songs/a.mid'')).
              \<forall>m \<in> set track. \<not> is_time_signature m"
    by (simp add: example_file_def)
  have tp: "\<forall>track \<in> set (mid_tracks ((\<lambda>_. example_file) ''songs/a.mid'')).
              \<forall>m \<in> set track. \<not> is_set_tempo m"
    by (simp add: example_file_def)
  note dflt = default_time_signature_and_tempo[of "\<lambda>_. example_file" "''songs/a.mid''" "[]"]
  note a = dflt[THEN conjunct1, THEN mp, OF ts, THEN spec, THEN mp, OF example_file_scan]
  from dflt[THEN conjunct2, THEN mp, OF tp] obtain self' where
    r: "process_tracks (init (\<lambda>_. example_file) ''songs/a.mid'' []) = Inr self'"
    and z: "tempo self' = 0" by (elim exE conjE)
  from r have "self' = ?s" unfolding example_file_scan by simp
  with z have b: "tempo ?s = 0" by (simp only:)
  have f: "filename ?s = ''a.mid''" "str_int (int (max_track_len ?s)) = ''400''"
    "str_int (int (length (instruments ?s))) = ''0''" "str_int (ticks_per_beat ?s) = ''480''"
    by (simp_all add: init_def example_file_def last_path_component_def str_int_def
        str_nat.simps digit_char_def)
  note a1 = a[THEN conjunct1] and a2 = a[THEN conjunct2, THEN conjunct1]
    and a3 = a[THEN conjunct2, THEN conjunct2, unfolded f]
  show ?thesis
    by (intro exI[of _ ?s] conjI) (fact example_file_scan, fact a1, fact a2, fact b, fact a3)
qed

section \<open>Scenario A of the TUBS encoder\<close>

lemmas float_eval =
  get_tubs_placement_def float_of_int_def float_truediv_def math_ceil_def fl_def
  round_double_def round_pos_def ulp_def ilog2_def round_half_even_def bit_length.simps Let_def

lemma tubs_480_0: "ticks_per_beat self = 480 \<Longrightarrow> get_tubs_placement self 0 = Inr 0"
  by (simp add: float_eval)

lemma tubs_480_1: "ticks_per_beat self = 480 \<Longrightarrow> get_tubs_placement self (Suc 0) = Inr 1"
  by (simp add: float_eval)

lemma tubs_480_480: "ticks_per_beat self = 480 \<Longrightarrow> get_tubs_placement self 480 = Inr 12"
  by (simp add: float_eval)

lemma tubs_480_960: "ticks_per_beat self = 480 \<Longrightarrow> get_tubs_placement self 960 = Inr 24"
  by (simp add: float_eval)

lemma tubs_480_1440: "ticks_per_beat self = 480 \<Longrightarrow> get_tubs_placement self 1440 = Inr 36"
  by (simp add: float_eval)

lemma replicate_numeral_Cons: "replicate (numeral k) x = x # replicate (pred_numeral k) x"
  by (simp add: numeral_eq_Suc)

lemma scenario_A_general:
  assumes "ticks_per_beat self = 480" and "max_track_len self = 1440"
  shows "tubs_of_instrument self [0, 480, 960] =
     Inr (''X..........X...........X............'', 24, 36)"
  using assms
  by (simp add: tubs_of_instrument_def tubs_480_0 tubs_480_1 tubs_480_480 tubs_480_960
      tubs_480_1440 Let_def replicate_numeral_Cons)


text \<open>
  The scan, the sort and the regrouping of the file of scenario A give \<open>scenario_A\<close>.
\<close>

lemma scenario_A_pipeline:
  "\<exists>self1. process_tracks (init (\<lambda>_. scenario_A_file) ''songs/a.mid'' []) = Inr self1
     \<and> beats_by_instrument (setup_variables self1) = Inr scenario_A"
  by (simp add: process_tracks_def init_def scenario_A_file_def process_message_def Let_def
      setup_variables_def beats_by_instrument_def scenario_A_def str_int_def str_nat.simps
      digit_char_def)

text \<open>
  Claim C1, as the code has it. With 480 ticks per beat, attacks at ticks 0, 480 and 960
  and a longest track of 1440 ticks, the string of the instrument is an \<open>X\<close>, 10 dots, an
  \<open>X\<close>, 11 dots, an \<open>X\<close> and 12 dots, 36 characters in all, and the printed range is
  \<open>24-36\<close>: the slot of the last attack and the slot of the end of the track. The attack
  at tick 0 is in slot 0, and line 144 then counts on from slot 1, so one dot less
  follows it; the dots up to the end of the track are 36 - 24.
\<close>

theorem scenario_A_tubs:
  "tubs_of_instrument (self\<lparr>ticks_per_beat := 480, max_track_len := 1440\<rparr>) [0, 480, 960] =
     Inr (''X'' @ replicate 10 CHR ''.'' @ ''X'' @ replicate 11 CHR ''.'' @ ''X''
            @ replicate 12 CHR ''.'', 24, 36)
   \<and> length (''X'' @ replicate 10 CHR ''.'' @ ''X'' @ replicate 11 CHR ''.'' @ ''X''
            @ replicate 12 CHR ''.'') = 36
   \<and> tubs_lines (''X'' @ replicate 10 CHR ''.'' @ ''X'' @ replicate 11 CHR ''.'' @ ''X''
            @ replicate 12 CHR ''.'', 24, 36) =
       [''X'' @ replicate 10 CHR ''.'' @ ''X'' @ replicate 11 CHR ''.'' @ ''X''
            @ replicate 12 CHR ''.'' @ [CHR 0x09] @ ''24-36'',
        ''[Length: 36]'']"
proof -
  have "tubs_of_instrument (self\<lparr>ticks_per_beat := 480, max_track_len := 1440\<rparr>) [0, 480, 960] =
     Inr (''X..........X...........X............'', 24, 36)"
    by (rule scenario_A_general) simp_all
  then show ?thesis
    by (simp add: replicate_numeral_Cons tubs_lines_def str_int_def str_nat.simps digit_char_def)
qed

text \<open>
  What \<^verbatim>\<open>create_timelines\<close> prints in scenario A, whatever the name of note 36 is.
\<close>

lemma scenario_A_printed:
  "create_timelines enum_str scenario_A =
     (case enum_str 36 of
        Inl e \<Rightarrow> ([CHR 0x0A # ''INSTRUMENTOS:''], Some e)
      | Inr name_line \<Rightarrow>
          ([CHR 0x0A # ''INSTRUMENTOS:'', name_line,
            ''X..........X...........X............'' @ [CHR 0x09] @ ''24-36'',
            ''[Length: 36]''], None))"
proof -
  have t: "tubs_of_instrument scenario_A [0, 480, 960] =
     Inr (''X..........X...........X............'', 24, 36)"
    by (rule scenario_A_general) (simp_all add: scenario_A_def init_def scenario_A_file_def)
  have i: "instruments scenario_A = [(''36'', [0, 480, 960])]"
    by (simp add: scenario_A_def)
  have n: "print_instrument_name enum_str ''36'' = enum_str 36"
    by (simp add: print_instrument_name_def py_int_def digit_value_def)
  show ?thesis
    by (simp add: create_timelines_def i n t tubs_lines_def str_int_def str_nat.simps
        digit_char_def split: sum.splits)
qed

text \<open>
  The string the specification expects in scenario A, three times an \<open>X\<close> and 11 dots,
  is not the one the code builds, and the printed range is not \<open>0-36\<close>.
\<close>

theorem scenario_A_counterexample:
  "tubs_of_instrument scenario_A [0, 480, 960] =
     Inr (''X..........X...........X............'', 24, 36)
   \<and> ''X..........X...........X............''
       \<noteq> concat (replicate 3 (''X'' @ replicate 11 CHR ''.''))
   \<and> tubs_lines (''X..........X...........X............'', 24, 36) =
       [''X..........X...........X............'' @ [CHR 0x09] @ ''24-36'', ''[Length: 36]'']
   \<and> ''24-36'' \<noteq> ''0-36''"
proof -
  have t: "tubs_of_instrument scenario_A [0, 480, 960] =
     Inr (''X..........X...........X............'', 24, 36)"
    by (rule scenario_A_general) (simp_all add: scenario_A_def init_def scenario_A_file_def)
  have d: "''X..........X...........X............''
       \<noteq> concat (replicate 3 (''X'' @ replicate 11 CHR ''.''))"
    by (simp add: replicate_numeral_Cons)
  have c: "tubs_lines (''X..........X...........X............'', 24, 36) =
       [''X..........X...........X............'' @ [CHR 0x09] @ ''24-36'', ''[Length: 36]'']"
    by (simp add: tubs_lines_def str_int_def str_nat.simps digit_char_def)
  have e: "''24-36'' \<noteq> ''0-36''" by simp
  from t d c e show ?thesis by (intro conjI)
qed

section \<open>Rounding to a double\<close>

lemma pow2_less_iff: "(2::real) powi a < 2 powi b \<longleftrightarrow> a < b"
proof
  assume h: "(2::real) powi a < 2 powi b"
  show "a < b"
  proof (rule ccontr)
    assume "\<not> a < b"
    then have "b \<le> a" by simp
    then have "(2::real) powi b \<le> 2 powi a" by (rule power_int_increasing) simp
    with h show False by simp
  qed
next
  assume "a < b"
  then show "(2::real) powi a < 2 powi b" by (rule power_int_strict_increasing) simp
qed

lemma pow2_le_iff: "(2::real) powi a \<le> 2 powi b \<longleftrightarrow> a \<le> b"
  using pow2_less_iff[of b a] by (simp add: not_less[symmetric])

lemma pow2_pos: "0 < (2::real) powi a"
  by simp

lemma pow2_add: "(2::real) powi (a + b) = 2 powi a * 2 powi b"
  by (rule power_int_add) simp

lemma pow2_diff: "(2::real) powi (a - b) = 2 powi a / 2 powi b"
  by (rule power_int_diff) simp

lemma bit_length_pos: "0 < n \<Longrightarrow> 0 < bit_length n"
  by (subst bit_length.simps) simp

lemma bit_length_bounds:
  "0 < n \<Longrightarrow> 2 ^ (bit_length n - 1) \<le> n \<and> n < 2 ^ bit_length n"
proof (induction n rule: bit_length.induct)
  case (1 n)
  from "1.prems" have bl: "bit_length n = Suc (bit_length (n div 2))"
    by (subst bit_length.simps) simp
  show ?case
  proof (cases "n div 2 = 0")
    case True
    with "1.prems" have "n = 1" by (simp add: div_eq_0_iff)
    moreover have "bit_length (n div 2) = 0" using True by (simp add: bit_length.simps)
    ultimately show ?thesis using bl by simp
  next
    case False
    then have pos: "0 < n div 2" by simp
    from "1.IH" "1.prems" pos
    have ih: "2 ^ (bit_length (n div 2) - 1) \<le> n div 2" "n div 2 < 2 ^ bit_length (n div 2)"
      by simp_all
    from bit_length_pos[OF pos] obtain k where k: "bit_length (n div 2) = Suc k"
      by (cases "bit_length (n div 2)") simp_all
    from ih k have "2 ^ k \<le> n div 2" "n div 2 < 2 ^ Suc k" by simp_all
    then have "2 * 2 ^ k \<le> n" "n < 2 * 2 ^ Suc k" by linarith+
    then show ?thesis by (simp add: bl k)
  qed
qed

lemma real_pow2_le: "2 ^ k \<le> (a::nat) \<Longrightarrow> (2::real) ^ k \<le> real a"
  using of_nat_mono[of "2 ^ k" a, where 'a = real] by simp

lemma real_pow2_gt: "(a::nat) < 2 ^ k \<Longrightarrow> real a + 1 \<le> 2 ^ k"
  using of_nat_mono[of "Suc a" "2 ^ k", where 'a = real] by simp

lemma ilog2_bounds:
  assumes "0 < x"
  shows "2 powi (ilog2 x) \<le> x \<and> x < 2 powi (ilog2 x + 1)"
proof (cases "1 \<le> x")
  case True
  let ?n = "nat \<lfloor>x\<rfloor>"
  from True have n: "0 < ?n" by simp
  from True have e: "ilog2 x = int (bit_length ?n) - 1" by (simp add: ilog2_def)
  from bit_length_pos[OF n] obtain k where k: "bit_length ?n = Suc k"
    by (cases "bit_length ?n") simp_all
  from bit_length_bounds[OF n] k have b: "2 ^ k \<le> ?n" "?n < 2 ^ Suc k" by simp_all
  have "real ?n \<le> x" using True by (simp add: of_nat_nat)
  moreover have "x < real ?n + 1" using True by (simp add: of_nat_nat)
  moreover from b(1) have "(2::real) ^ k \<le> real ?n" by (rule real_pow2_le)
  moreover from b(2) have "real ?n + 1 \<le> 2 ^ Suc k" by (rule real_pow2_gt)
  ultimately have "(2::real) ^ k \<le> x" "x < 2 ^ Suc k" by linarith+
  moreover have "ilog2 x = int k" "ilog2 x + 1 = int (Suc k)" using e k by simp_all
  ultimately show ?thesis by (simp only: power_int_of_nat)
next
  case False
  with assms have x: "0 < x" "x < 1" by simp_all
  let ?y = "1 / x"
  let ?m = "nat (\<lceil>?y\<rceil> - 1)"
  from x have y: "1 < ?y" by simp
  then have c: "2 \<le> \<lceil>?y\<rceil>" by (simp add: le_ceiling_iff)
  then have m: "0 < ?m" by simp
  from False have e: "ilog2 x = - int (bit_length ?m)" by (simp add: ilog2_def)
  from bit_length_pos[OF m] obtain k where k: "bit_length ?m = Suc k"
    by (cases "bit_length ?m") simp_all
  from bit_length_bounds[OF m] k have b: "2 ^ k \<le> ?m" "?m < 2 ^ Suc k" by simp_all
  from c have "0 \<le> \<lceil>?y\<rceil> - 1" by linarith
  then have "real ?m = of_int (\<lceil>?y\<rceil> - 1)" by (rule of_nat_nat)
  then have rm: "real ?m = of_int \<lceil>?y\<rceil> - 1" by (simp only: of_int_diff of_int_1)
  have "real ?m < ?y" unfolding rm using ceiling_correct[of ?y] by linarith
  moreover have "?y \<le> real ?m + 1" unfolding rm using ceiling_correct[of ?y] by linarith
  moreover from b(1) have "(2::real) ^ k \<le> real ?m" by (rule real_pow2_le)
  moreover from b(2) have "real ?m + 1 \<le> 2 ^ Suc k" by (rule real_pow2_gt)
  ultimately have yb: "(2::real) ^ k < ?y" "?y \<le> 2 ^ Suc k" by linarith+
  have p: "(0::real) < 2 ^ k" "(0::real) < 2 ^ Suc k" by simp_all
  from yb(2) x(1) p(2) have lo: "1 / 2 ^ Suc k \<le> x"
    by (simp add: field_simps)
  from yb(1) x(1) p(1) have hi: "x < 1 / 2 ^ k"
    by (simp add: field_simps)
  have "ilog2 x = - int (Suc k)" using e k by simp
  then have e1: "(2::real) powi (ilog2 x) = 1 / 2 ^ Suc k"
    by (simp only: power_int_minus_divide power_int_of_nat)
  have "ilog2 x + 1 = - int k" using e k by simp
  then have e2: "(2::real) powi (ilog2 x + 1) = 1 / 2 ^ k"
    by (simp only: power_int_minus_divide power_int_of_nat)
  from lo hi show ?thesis unfolding e1 e2 by simp
qed

lemma ilog2_unique:
  assumes "2 powi e \<le> x" and "x < 2 powi (e + 1)"
  shows "ilog2 x = e"
proof -
  have "0 < (2::real) powi e" by simp
  with assms(1) have x: "0 < x" by linarith
  from ilog2_bounds[OF x] have b: "2 powi (ilog2 x) \<le> x" "x < 2 powi (ilog2 x + 1)" by simp_all
  from assms(1) b(2) have "(2::real) powi e < 2 powi (ilog2 x + 1)" by linarith
  then have "e < ilog2 x + 1" by (simp only: pow2_less_iff)
  moreover from b(1) assms(2) have "(2::real) powi (ilog2 x) < 2 powi (e + 1)" by linarith
  then have "ilog2 x < e + 1" by (simp only: pow2_less_iff)
  ultimately show ?thesis by simp
qed

lemma ilog2_mono:
  assumes "0 < x" and "x \<le> y"
  shows "ilog2 x \<le> ilog2 y"
proof -
  from assms have y: "0 < y" by simp
  from ilog2_bounds[OF assms(1)] ilog2_bounds[OF y] assms(2)
  have "(2::real) powi (ilog2 x) < 2 powi (ilog2 y + 1)" by linarith
  then have "ilog2 x < ilog2 y + 1" by (simp only: pow2_less_iff)
  then show ?thesis by simp
qed

lemma round_half_even_of_int: "round_half_even (of_int n) = n"
  by (simp add: round_half_even_def)

lemma round_half_even_lower: "\<lfloor>r\<rfloor> \<le> round_half_even r"
  by (simp add: round_half_even_def Let_def)

lemma round_half_even_upper: "round_half_even r \<le> \<lfloor>r\<rfloor> + 1"
  by (simp add: round_half_even_def Let_def)


lemma round_half_even_mono:
  assumes "x \<le> y"
  shows "round_half_even x \<le> round_half_even y"
proof (cases "\<lfloor>x\<rfloor> = \<lfloor>y\<rfloor>")
  case True
  with assms have "x - of_int \<lfloor>x\<rfloor> \<le> y - of_int \<lfloor>y\<rfloor>" by simp
  with True show ?thesis by (auto simp: round_half_even_def Let_def)
next
  case False
  with floor_mono[OF assms] have "\<lfloor>x\<rfloor> + 1 \<le> \<lfloor>y\<rfloor>" by simp
  with round_half_even_upper[of x] round_half_even_lower[of y] show ?thesis by linarith
qed

lemma ulp_pos: "0 < ulp x"
  by (simp add: ulp_def)

lemma ulp_expo: "ulp x * 2 ^ 52 = 2 powi (max (ilog2 x) (- 1022))"
proof -
  have "(2::real) powi (max (ilog2 x) (- 1022) - 52 + 52) =
        2 powi (max (ilog2 x) (- 1022) - 52) * 2 powi 52" by (rule pow2_add)
  then show ?thesis by (simp add: ulp_def)
qed

lemma round_pos_nonneg:
  assumes "0 < x"
  shows "0 \<le> round_pos x"
proof -
  from assms ulp_pos[of x] have "0 \<le> x / ulp x" by simp
  then have "0 \<le> \<lfloor>x / ulp x\<rfloor>" by simp
  with round_half_even_lower[of "x / ulp x"] have "0 \<le> round_half_even (x / ulp x)" by linarith
  with ulp_pos[of x] show ?thesis by (simp add: round_pos_def)
qed

lemma round_pos_upper:
  assumes "0 < x"
  shows "round_pos x \<le> 2 * 2 powi (max (ilog2 x) (- 1022))"
proof -
  let ?e = "max (ilog2 x) (- 1022)"
  from ilog2_bounds[OF assms] have "x < 2 powi (ilog2 x + 1)" by simp
  also have "\<dots> \<le> 2 powi (?e + 1)" by (simp add: pow2_le_iff)
  also have "\<dots> = 2 * 2 powi ?e" by (simp add: pow2_add)
  also have "\<dots> = 2 ^ 53 * ulp x" using ulp_expo[of x] by simp
  finally have "x / ulp x \<le> 2 ^ 53" using ulp_pos[of x] by (simp add: field_simps)
  then have "x / ulp x \<le> of_int (2 ^ 53)" by simp
  from round_half_even_mono[OF this]
  have "round_half_even (x / ulp x) \<le> 2 ^ 53" by (simp only: round_half_even_of_int)
  then have "real_of_int (round_half_even (x / ulp x)) \<le> 2 ^ 53"
    using of_int_le_iff[of "round_half_even (x / ulp x)" "2 ^ 53", where 'a = real] by simp
  then have "round_pos x \<le> 2 ^ 53 * ulp x"
    unfolding round_pos_def using ulp_pos[of x] by (simp add: mult_right_mono)
  also have "\<dots> = 2 * 2 powi ?e" using ulp_expo[of x] by simp
  finally show ?thesis .
qed

lemma round_pos_lower:
  assumes "0 < x" and "- 1022 \<le> ilog2 x"
  shows "2 powi (ilog2 x) \<le> round_pos x"
proof -
  from assms(2) have e: "max (ilog2 x) (- 1022) = ilog2 x" by simp
  from ilog2_bounds[OF assms(1)] have "2 powi (ilog2 x) \<le> x" by simp
  also have "2 powi (ilog2 x) = 2 ^ 52 * ulp x" using ulp_expo[of x] e by simp
  finally have "2 ^ 52 \<le> x / ulp x" using ulp_pos[of x] by (simp add: field_simps)
  then have "of_int (2 ^ 52) \<le> x / ulp x" by simp
  from round_half_even_mono[OF this]
  have "2 ^ 52 \<le> round_half_even (x / ulp x)" by (simp only: round_half_even_of_int)
  then have "2 ^ 52 \<le> real_of_int (round_half_even (x / ulp x))"
    using of_int_le_iff[of "2 ^ 52" "round_half_even (x / ulp x)", where 'a = real] by simp
  then have "2 ^ 52 * ulp x \<le> round_pos x"
    unfolding round_pos_def using ulp_pos[of x] by (simp add: mult_right_mono)
  then show ?thesis using ulp_expo[of x] e by simp
qed

lemma round_pos_mono:
  assumes "0 < x" and "x \<le> y"
  shows "round_pos x \<le> round_pos y"
proof -
  from assms have y: "0 < y" by simp
  let ?ex = "max (ilog2 x) (- 1022)" and ?ey = "max (ilog2 y) (- 1022)"
  from ilog2_mono[OF assms] have le: "?ex \<le> ?ey" by simp
  show ?thesis
  proof (cases "?ex = ?ey")
    case True
    then have u: "ulp x = ulp y" by (simp add: ulp_def)
    from assms(2) ulp_pos[of y] have "x / ulp y \<le> y / ulp y" by (simp add: divide_right_mono)
    from round_half_even_mono[OF this]
    have "real_of_int (round_half_even (x / ulp y)) \<le> real_of_int (round_half_even (y / ulp y))"
      by simp
    with ulp_pos[of y] show ?thesis unfolding round_pos_def u by (simp add: mult_right_mono)
  next
    case False
    with le have lt: "?ex < ?ey" by linarith
    then have n: "- 1022 \<le> ilog2 y" "?ey = ilog2 y" by linarith+
    from lt have "?ex + 1 \<le> ?ey" by linarith
    then have "(2::real) powi (?ex + 1) \<le> 2 powi ?ey" by (simp only: pow2_le_iff)
    then have "2 * (2::real) powi ?ex \<le> 2 powi ?ey" by (simp add: pow2_add)
    with round_pos_upper[OF assms(1)] round_pos_lower[OF y n(1)] n(2) show ?thesis by simp
  qed
qed


lemma round_pos_exact:
  assumes "x = of_int n * ulp x"
  shows "round_pos x = x"
proof -
  from assms ulp_pos[of x] have "x / ulp x = of_int n" by (simp add: field_simps)
  then have "round_half_even (x / ulp x) = n" by (simp only: round_half_even_of_int)
  with assms show ?thesis by (simp add: round_pos_def)
qed

lemma round_double_0: "round_double 0 = 0"
  by (simp add: round_double_def)

lemma round_double_minus: "round_double (- x) = - round_double x"
  by (simp add: round_double_def)

lemma round_double_nonneg: "0 \<le> x \<Longrightarrow> 0 \<le> round_double x"
  using round_pos_nonneg[of x] by (simp add: round_double_def)

lemma round_double_nonpos: "x \<le> 0 \<Longrightarrow> round_double x \<le> 0"
  using round_pos_nonneg[of "- x"] by (simp add: round_double_def)

lemma round_double_mono:
  assumes "x \<le> y"
  shows "round_double x \<le> round_double y"
proof -
  consider "0 < x" | "x \<le> 0" "0 \<le> y" | "y < 0" by linarith
  then show ?thesis
  proof cases
    case 1
    with assms round_pos_mono[OF 1 assms] show ?thesis by (simp add: round_double_def)
  next
    case 2
    with round_double_nonpos[of x] round_double_nonneg[of y] show ?thesis by linarith
  next
    case 3
    with assms have "0 < - y" "- y \<le> - x" by simp_all
    from round_pos_mono[OF this] 3 assms show ?thesis by (simp add: round_double_def)
  qed
qed

lemma round_double_pow2:
  assumes "- 1022 \<le> k"
  shows "round_double (2 powi k) = 2 powi k"
proof -
  let ?x = "(2::real) powi k"
  have "?x < 2 powi (k + 1)" by (simp add: pow2_less_iff)
  with ilog2_unique[of k ?x] have e: "ilog2 ?x = k" by simp
  with assms have "max (ilog2 ?x) (- 1022) = k" by simp
  with ulp_expo[of ?x] have "?x = of_int (2 ^ 52) * ulp ?x" by simp
  from round_pos_exact[OF this] show ?thesis by (simp add: round_double_def)
qed


lemma round_double_nat:
  assumes "n \<le> 2 ^ 53"
  shows "round_double (real n) = real n"
proof (cases "n = 0")
  case True
  then show ?thesis by (simp add: round_double_0)
next
  case False
  let ?x = "real n"
  from False have x: "0 < ?x" "1 \<le> ?x" by simp_all
  have "ilog2 1 = 0" by (rule ilog2_unique) simp_all
  with ilog2_mono[of 1 ?x] x have lo: "0 \<le> ilog2 ?x" by simp
  then have e: "max (ilog2 ?x) (- 1022) = ilog2 ?x" by simp
  from assms have "?x \<le> 2 ^ 53"
    using of_nat_mono[of n "2 ^ 53", where 'a = real] by simp
  then have le: "?x \<le> 2 powi 53" by simp
  have "ilog2 (2 powi 53) = 53" by (rule ilog2_unique) (simp_all add: pow2_less_iff)
  with ilog2_mono[OF x(1) le] have hi: "ilog2 ?x \<le> 53" by simp
  have "\<exists>m. ?x = of_int m * ulp ?x"
  proof (cases "ilog2 ?x = 53")
    case True
    from ilog2_bounds[OF x(1)] True have "2 powi 53 \<le> ?x" by simp
    with le have "?x = 2 powi 53" by simp
    moreover have "ulp ?x = 2" using True by (simp add: ulp_def)
    ultimately have "?x = of_int (2 ^ 52) * ulp ?x" by simp
    then show ?thesis ..
  next
    case False
    with hi have "0 \<le> 52 - ilog2 ?x" by simp
    then obtain j where j: "52 - ilog2 ?x = int j" using nonneg_int_cases by blast
    then have "ilog2 ?x - 52 = - int j" by simp
    then have u: "ulp ?x = 1 / 2 ^ j"
      unfolding ulp_def e by (simp only: power_int_minus_divide power_int_of_nat)
    have "?x = of_int (int n * 2 ^ j) * ulp ?x" unfolding u by simp
    then show ?thesis ..
  qed
  then obtain m where "?x = of_int m * ulp ?x" ..
  from round_pos_exact[OF this] x(1) show ?thesis by (simp add: round_double_def)
qed

section \<open>The quantization: \<^verbatim>\<open>get_tubs_placement\<close>\<close>

lemma fl_nonneg: "0 \<le> x \<Longrightarrow> fl x = (if 2 ^ 1024 \<le> round_double x then PosInf else Finite (round_double x))"
proof -
  assume "0 \<le> x"
  from round_double_nonneg[OF this] have "\<not> round_double x \<le> - (2 ^ 1024)" by simp
  then show ?thesis by (simp add: fl_def Let_def)
qed

lemma float_of_int_nonneg:
  "0 \<le> n \<Longrightarrow> float_of_int n =
     (if 2 ^ 1024 \<le> round_double (of_int n) then Inl OverflowError
      else Inr (Finite (round_double (of_int n))))"
  by (simp add: float_of_int_def fl_nonneg)

lemma round_double_1: "round_double 1 = 1"
  using round_double_pow2[of 0] by simp


lemma round_double_2_1023: "round_double (2 ^ 1023) = 2 ^ 1023"
  using round_double_pow2[of 1023] by simp

lemma round_double_le_2_1023: "x \<le> 2 ^ 1023 \<Longrightarrow> round_double x < 2 ^ 1024"
proof -
  assume "x \<le> 2 ^ 1023"
  from round_double_mono[OF this] have "round_double x \<le> 2 ^ 1023"
    by (simp only: round_double_2_1023)
  moreover have "(2::real) ^ 1023 < 2 ^ 1024" by (rule power_strict_increasing) simp_all
  ultimately show ?thesis by linarith
qed













section \<open>The statistics: \<^verbatim>\<open>count_instruments_by_beat\<close>\<close>

text \<open>
  The scan, the sort and the regrouping of the file of scenario C give \<open>scenario_C\<close>.
\<close>

lemma scenario_C_pipeline:
  "\<exists>self1. process_tracks (init (\<lambda>_. scenario_C_file) ''songs/c.mid'' []) = Inr self1
     \<and> beats_by_instrument (setup_variables self1) = Inr scenario_C"
  by (simp add: process_tracks_def init_def scenario_C_file_def process_message_def Let_def
      setup_variables_def beats_by_instrument_def scenario_C_def str_int_def str_nat.simps
      digit_char_def)

lemma Max_insert_max: "finite A \<Longrightarrow> Max (insert (max a b) A) = Max (insert a (insert b A))"
  by (cases "A = {}") (simp_all add: max.assoc)

lemma Min_insert_min: "finite A \<Longrightarrow> Min (insert (min a b) A) = Min (insert a (insert b A))"
  by (cases "A = {}") (simp_all add: min.assoc)

lemma count_loop_lengths:
  "count_loop obs (s, b, mx, mn) =
     (s + sum_list (map (\<lambda>(t, l). length l) obs),
      b + length (filter (\<lambda>(t, l). 2 \<le> length l) obs),
      Max (set (mx # map (\<lambda>(t, l). length l) obs)),
      Min (set (mn # map (\<lambda>(t, l). length l) obs)))"
proof (induction obs arbitrary: s b mx mn)
  case Nil
  then show ?case by simp
next
  case (Cons p rest)
  obtain t l where p: "p = (t, l)" by (cases p)
  have mx: "(if mx < length l then length l else mx) = max mx (length l)" by (simp add: max_def)
  have mn: "(if length l < mn then length l else mn) = min mn (length l)" by (simp add: min_def)
  show ?case
    unfolding p
    by (simp add: Cons.IH Let_def mx mn Max_insert_max Min_insert_min del: Max_insert Min_insert)
qed

lemma beat_ok_count: "beat_ok l \<Longrightarrow> instrument_count l = length l"
  using distinct_card[of "map m_note l"] by (simp add: beat_ok_def instrument_count_def)

lemma beats_ok_counts:
  "list_all (\<lambda>(t, l). beat_ok l) obs \<Longrightarrow>
   map (\<lambda>(t, l). instrument_count l) obs = map (\<lambda>(t, l). length l) obs"
  by (induction obs) (auto simp: beat_ok_count)

lemma beats_ok_filter:
  "list_all (\<lambda>(t, l). beat_ok l) obs \<Longrightarrow>
   filter (\<lambda>(t, l). 2 \<le> instrument_count l) obs = filter (\<lambda>(t, l). 2 \<le> length l) obs"
  by (induction obs) (auto simp: beat_ok_count)

lemma count_loop_closed:
  assumes "list_all (\<lambda>(t, l). beat_ok l) obs"
  shows "count_loop obs (0, 0, 1, n_insts) =
     (inst_sum_of obs, binary_sum_of obs, max_concurrent obs, min_concurrent n_insts obs)"
  unfolding count_loop_lengths inst_sum_of_def binary_sum_of_def max_concurrent_def
    min_concurrent_def
  by (simp add: beats_ok_counts[OF assms] beats_ok_filter[OF assms])

lemma beat_ok_length: 
  assumes "beat_ok l"
  shows "length l \<le> 128"
proof -
  from assms have a: "list_all attack l" and d: "distinct (map m_note l)"
    by (simp_all add: beat_ok_def)
  have "set (map m_note l) \<subseteq> range (Inr :: 7 word \<Rightarrow> error + 7 word)"
  proof
    fix x assume "x \<in> set (map m_note l)"
    then obtain m where "m \<in> set l" "x = m_note m" by auto
    with a attack_note[of m] show "x \<in> range Inr" by (auto simp: list_all_iff)
  qed
  then have "card (set (map m_note l)) \<le> card (range (Inr :: 7 word \<Rightarrow> error + 7 word))"
    by (intro card_mono) simp_all
  also have "\<dots> = card (UNIV :: 7 word set)" by (intro card_image) simp
  also have "\<dots> = 128" by (simp add: card_word)
  finally show ?thesis using distinct_card[OF d] by simp
qed

lemma inst_sum_bound:
  "list_all (\<lambda>(t, l). beat_ok l) obs \<Longrightarrow> inst_sum_of obs \<le> 128 * length obs"
proof (induction obs)
  case Nil
  then show ?case by (simp add: inst_sum_of_def)
next
  case (Cons p rest)
  obtain t l where p: "p = (t, l)" by (cases p)
  from Cons.prems p have "beat_ok l" "list_all (\<lambda>(t, l). beat_ok l) rest" by simp_all
  with Cons.IH beat_ok_length[of l] beat_ok_count[of l] show ?case
    by (simp add: inst_sum_of_def p)
qed

lemma binary_sum_bound: "binary_sum_of obs \<le> length obs"
  by (simp add: binary_sum_of_def)

lemma min_concurrent_bound:
  assumes "obs \<noteq> []" and "list_all (\<lambda>(t, l). beat_ok l) obs"
  shows "min_concurrent n_insts obs \<le> 128"
proof -
  from assms(1) obtain t l rest where o: "obs = (t, l) # rest" by (cases obs) auto
  with assms(2) have "beat_ok l" by simp
  from beat_ok_length[OF this] beat_ok_count[OF this] have "instrument_count l \<le> 128" by simp
  moreover have "min_concurrent n_insts obs \<le> instrument_count l"
    unfolding min_concurrent_def o by (intro Min_le) simp_all
  ultimately show ?thesis by linarith
qed

lemma round_double_2_1000: "round_double (2 ^ 1000) = 2 ^ 1000"
  using round_double_pow2[of 1000] by simp

lemma round_double_le_2_1000: "x \<le> 2 ^ 1000 \<Longrightarrow> round_double x \<le> 2 ^ 1000"
  using round_double_mono[of x "2 ^ 1000"] by (simp only: round_double_2_1000)

lemma pow_1000_1023: "(2::real) ^ 1000 \<le> 2 ^ 1023"
  by (rule power_increasing) simp_all

lemma fl_small:
  assumes "0 \<le> x" and "x \<le> 2 ^ 1023"
  shows "fl x = Finite (round_double x)"
  using fl_nonneg[OF assms(1)] round_double_le_2_1023[OF assms(2)] by simp

lemma float_of_int_small:
  assumes "real n \<le> 2 ^ 1000"
  shows "float_of_int (int n) = Inr (Finite (round_double (real n)))"
proof -
  from assms pow_1000_1023 have "real n \<le> 2 ^ 1023" by linarith
  from round_double_le_2_1023[OF this] show ?thesis
    using float_of_int_nonneg[of "int n"] by simp
qed

lemma means_of_closed:
  assumes s: "real inst_sum \<le> 2 ^ 1000" and n: "0 < n_beats" "real n_beats \<le> 2 ^ 1000"
    and b: "real binary_sum \<le> 2 ^ 1000" and m: "real mn \<le> 2 ^ 1000"
  shows "means_of n_insts n_beats inst_sum binary_sum mn =
     Inr [\<lparr>mean_type = ''am'', num_insts = n_insts,
            mean_value = Finite (round_double (round_double (real inst_sum)
                                               / round_double (real n_beats)))\<rparr>,
          \<lparr>mean_type = ''bm'', num_insts = n_insts,
            mean_value = Finite (round_double (round_double (real mn)
               + round_double (round_double (real binary_sum) / round_double (real n_beats))))\<rparr>]"
proof -
  let ?S = "round_double (real inst_sum)" and ?N = "round_double (real n_beats)"
  let ?B = "round_double (real binary_sum)" and ?M = "round_double (real mn)"
  from n(1) have "1 \<le> real n_beats" by simp
  from round_double_mono[OF this] have N1: "1 \<le> ?N" by (simp only: round_double_1)
  then have N0: "Finite ?N \<noteq> Finite 0" by simp
  have S0: "0 \<le> ?S" and B0: "0 \<le> ?B" and M0: "0 \<le> ?M"
    by (intro round_double_nonneg, simp)+
  note Sb = round_double_le_2_1000[OF s] and Bb = round_double_le_2_1000[OF b]
    and Mb = round_double_le_2_1000[OF m]
  have "?S / ?N \<le> ?S / 1" using N1 S0 by (intro divide_left_mono) simp_all
  with Sb pow_1000_1023 have q1: "0 \<le> ?S / ?N" "?S / ?N \<le> 2 ^ 1023" using S0 N1 by simp_all
  have "?B / ?N \<le> ?B / 1" using N1 B0 by (intro divide_left_mono) simp_all
  with Bb have q2: "0 \<le> ?B / ?N" "?B / ?N \<le> 2 ^ 1000" using B0 N1 by simp_all
  from q2 pow_1000_1023 have q2': "?B / ?N \<le> 2 ^ 1023" by linarith
  let ?D = "round_double (?B / ?N)"
  have D0: "0 \<le> ?D" using q2(1) by (rule round_double_nonneg)
  have Db: "?D \<le> 2 ^ 1000" using q2(2) by (rule round_double_le_2_1000)
  have "(2::real) ^ 1023 = 2 ^ 23 * 2 ^ 1000" by (simp only: power_add[symmetric]) simp
  then have "2 * (2::real) ^ 1000 \<le> 2 ^ 1023" by simp
  with Mb Db have sum: "0 \<le> ?M + ?D" "?M + ?D \<le> 2 ^ 1023" using M0 D0 by linarith+
  have d1: "float_truediv (Finite ?S) (Finite ?N) = Inr (Finite (round_double (?S / ?N)))"
    using N1 by (simp add: float_truediv_def fl_small[OF q1])
  have d2: "float_truediv (Finite ?B) (Finite ?N) = Inr (Finite ?D)"
    using N1 by (simp add: float_truediv_def fl_small[OF q2(1) q2'])
  have a: "float_add (Finite ?M) (Finite ?D) = Finite (round_double (?M + ?D))"
    by (simp add: float_add_def fl_small[OF sum])
  show ?thesis
    by (simp add: means_of_def float_of_int_small[OF s] float_of_int_small[OF n(2)]
        float_of_int_small[OF b] float_of_int_small[OF m] d1 d2 a)
qed

lemma real_le_2_1000:
  assumes "k \<le> 2 ^ 70"
  shows "real k \<le> 2 ^ 1000"
proof -
  from assms have "real k \<le> 2 ^ 70" using of_nat_mono[of k "2 ^ 70", where 'a = real] by simp
  moreover have "(2::real) ^ 70 \<le> 2 ^ 1000" by (rule power_increasing) simp_all
  ultimately show ?thesis by linarith
qed

lemma statistics_closed:
  assumes ne: "ordered_beats self \<noteq> []" and sz: "length (ordered_beats self) < 2 ^ 63"
    and ok: "list_all (\<lambda>(t, l). beat_ok l) (ordered_beats self)"
  shows "snd (count_instruments_by_beat self) =
     Inr [\<lparr>mean_type = ''am'', num_insts = length (instruments self),
            mean_value = Finite (round_double
              (round_double (real (inst_sum_of (ordered_beats self)))
               / round_double (real (length (ordered_beats self)))))\<rparr>,
          \<lparr>mean_type = ''bm'', num_insts = length (instruments self),
            mean_value = Finite (round_double
              (round_double (real (min_concurrent (length (instruments self))
                                     (ordered_beats self)))
               + round_double
                   (round_double (real (binary_sum_of (ordered_beats self)))
                    / round_double (real (length (ordered_beats self))))))\<rparr>]"
proof -
  let ?obs = "ordered_beats self"
  from ne have n0: "0 < length ?obs" by simp
  from sz have n63: "length ?obs \<le> 2 ^ 63" by simp
  have "(2::nat) ^ 63 \<le> 2 ^ 70" by (rule power_increasing) simp_all
  with n63 have "length ?obs \<le> 2 ^ 70" by linarith
  then have n: "real (length ?obs) \<le> 2 ^ 1000" by (rule real_le_2_1000)
  have "(2::nat) ^ 70 = 128 * 2 ^ 63" by simp
  with inst_sum_bound[OF ok] n63 have "inst_sum_of ?obs \<le> 2 ^ 70" by linarith
  then have s: "real (inst_sum_of ?obs) \<le> 2 ^ 1000" by (rule real_le_2_1000)
  from binary_sum_bound[of ?obs] \<open>length ?obs \<le> 2 ^ 70\<close> have "binary_sum_of ?obs \<le> 2 ^ 70"
    by linarith
  then have b: "real (binary_sum_of ?obs) \<le> 2 ^ 1000" by (rule real_le_2_1000)
  have "(128::nat) \<le> 2 ^ 70" by simp
  with min_concurrent_bound[OF ne ok, of "length (instruments self)"]
  have "min_concurrent (length (instruments self)) ?obs \<le> 2 ^ 70" by linarith
  then have m: "real (min_concurrent (length (instruments self)) ?obs) \<le> 2 ^ 1000"
    by (rule real_le_2_1000)
  note cl = count_loop_closed[OF ok, of "length (instruments self)"]
  show ?thesis
    unfolding count_instruments_by_beat_def Let_def cl
    by (simp add: means_of_closed[OF s n0 n b m])
qed

text \<open>
  Claim C2. On a non-empty dict of beats, each a well-formed list of attacks (so that its
  length is its number of distinct instruments \<open>k\<close>), with no more beats than a Python
  dict can hold, the loop leaves \<open>inst_sum\<close> the sum of the \<open>k\<close>, \<open>binary_sum\<close> the number of
  beats with \<open>k \<ge> 2\<close>, the maximum seeded at 1 and the minimum seeded at the number of
  instruments; and the function returns the arithmetic mean \<open>inst_sum / beats\<close> and the
  binary mean \<open>minimum + binary_sum / beats\<close>, the operations being those of doubles
  (each conversion, division and addition rounded to nearest).
\<close>

theorem count_instruments_by_beat_means:
  assumes "ordered_beats self \<noteq> []" and "length (ordered_beats self) < 2 ^ 63"
    and "list_all (\<lambda>(t, l). beat_ok l) (ordered_beats self)"
  shows "count_loop (ordered_beats self) (0, 0, 1, length (instruments self)) =
           (inst_sum_of (ordered_beats self), binary_sum_of (ordered_beats self),
            max_concurrent (ordered_beats self),
            min_concurrent (length (instruments self)) (ordered_beats self))
       \<and> snd (count_instruments_by_beat self) =
           Inr [\<lparr>mean_type = ''am'', num_insts = length (instruments self),
                  mean_value = Finite (round_double
                    (round_double (real (inst_sum_of (ordered_beats self)))
                     / round_double (real (length (ordered_beats self)))))\<rparr>,
                \<lparr>mean_type = ''bm'', num_insts = length (instruments self),
                  mean_value = Finite (round_double
                    (round_double (real (min_concurrent (length (instruments self))
                                           (ordered_beats self)))
                     + round_double
                         (round_double (real (binary_sum_of (ordered_beats self)))
                          / round_double (real (length (ordered_beats self))))))\<rparr>]"
  using count_loop_closed[OF assms(3)] statistics_closed[OF assms] by (rule conjI)

lemma scenario_C_ok:
  "ordered_beats scenario_C \<noteq> []" "length (ordered_beats scenario_C) < 2 ^ 63"
  "list_all (\<lambda>(t, l). beat_ok l) (ordered_beats scenario_C)"
  by (simp_all add: scenario_C_def beat_ok_def)

lemma scenario_C_values:
  "inst_sum_of (ordered_beats scenario_C) = 3" "binary_sum_of (ordered_beats scenario_C) = 1"
  "max_concurrent (ordered_beats scenario_C) = 2"
  "min_concurrent (length (instruments scenario_C)) (ordered_beats scenario_C) = 1"
  "min_concurrent 2 (ordered_beats scenario_C) = 1"
  "length (ordered_beats scenario_C) = 2" "length (instruments scenario_C) = 2"
  by (simp_all add: scenario_C_def inst_sum_of_def binary_sum_of_def max_concurrent_def
      min_concurrent_def instrument_count_def)

lemmas round_eval =
  round_double_def round_pos_def ulp_def ilog2_def round_half_even_def bit_length.simps Let_def

lemma scenario_C_rounding:
  "round_double (round_double 3 / round_double 2) = 3 / 2"
  "round_double (round_double 1 + round_double (round_double 1 / round_double 2)) = 3 / 2"
  by (simp_all add: round_eval)

text \<open>
  Scenario C: the loop leaves (3, 1, 2, 1) and both means are 1.5.
\<close>

theorem count_instruments_by_beat_means_witness:
  "ordered_beats scenario_C = [(0, [NoteOn 0 9 36 100]),
                                (500, [NoteOn 500 9 36 100, NoteOn 0 9 38 100])]
   \<and> count_loop (ordered_beats scenario_C) (0, 0, 1, 2) = (3, 1, 2, 1)
   \<and> snd (count_instruments_by_beat scenario_C) =
       Inr [\<lparr>mean_type = ''am'', num_insts = 2, mean_value = Finite (3 / 2)\<rparr>,
            \<lparr>mean_type = ''bm'', num_insts = 2, mean_value = Finite (3 / 2)\<rparr>]"
proof -
  note t = count_instruments_by_beat_means[OF scenario_C_ok, unfolded scenario_C_values]
  have o: "ordered_beats scenario_C = [(0, [NoteOn 0 9 36 100]),
                                (500, [NoteOn 500 9 36 100, NoteOn 0 9 38 100])]"
    by (simp add: scenario_C_def)
  from t[THEN conjunct1] have c: "count_loop (ordered_beats scenario_C) (0, 0, 1, 2) = (3, 1, 2, 1)" .
  from t[THEN conjunct2] have s: "snd (count_instruments_by_beat scenario_C) =
       Inr [\<lparr>mean_type = ''am'', num_insts = 2, mean_value = Finite (3 / 2)\<rparr>,
            \<lparr>mean_type = ''bm'', num_insts = 2, mean_value = Finite (3 / 2)\<rparr>]"
    by (simp add: scenario_C_rounding)
  from o c s show ?thesis by (intro conjI)
qed

text \<open>
  Claim C8. Under the same conditions the binary mean the function returns is a finite
  double not less than the minimum the loop leaves: the minimum is at most 128, hence a
  double, the added quotient is not negative, and rounding is monotonic.
\<close>

theorem binary_mean_at_least_min:
  assumes "ordered_beats self \<noteq> []" and "length (ordered_beats self) < 2 ^ 63"
    and "list_all (\<lambda>(t, l). beat_ok l) (ordered_beats self)"
  shows "\<exists>am bm v. snd (count_instruments_by_beat self) = Inr [am, bm]
           \<and> mean_value bm = Finite v
           \<and> real (snd (snd (snd (count_loop (ordered_beats self)
                                     (0, 0, 1, length (instruments self)))))) \<le> v"
proof -
  let ?obs = "ordered_beats self"
  let ?mn = "min_concurrent (length (instruments self)) ?obs"
  let ?d = "round_double (round_double (real (binary_sum_of ?obs))
                          / round_double (real (length ?obs)))"
  let ?v = "round_double (round_double (real ?mn) + ?d)"
  from min_concurrent_bound[OF assms(1,3), of "length (instruments self)"]
  have "?mn \<le> 2 ^ 53" by simp
  then have mn: "round_double (real ?mn) = real ?mn" by (rule round_double_nat)
  have "0 \<le> round_double (real (binary_sum_of ?obs))" by (intro round_double_nonneg) simp
  moreover have "0 \<le> round_double (real (length ?obs))" by (intro round_double_nonneg) simp
  ultimately have "0 \<le> round_double (real (binary_sum_of ?obs))
                          / round_double (real (length ?obs))" by simp
  then have "0 \<le> ?d" by (rule round_double_nonneg)
  then have "real ?mn \<le> round_double (real ?mn) + ?d" unfolding mn by simp
  from round_double_mono[OF this] have "real ?mn \<le> ?v" unfolding mn .
  moreover have "snd (snd (snd (count_loop ?obs (0, 0, 1, length (instruments self))))) = ?mn"
    unfolding count_loop_closed[OF assms(3)] by simp
  ultimately show ?thesis using statistics_closed[OF assms] by simp
qed

text \<open>
  Scenario C: the minimum is 1 and the binary mean 1.5.
\<close>

theorem binary_mean_at_least_min_witness:
  "ordered_beats scenario_C \<noteq> []
   \<and> snd (snd (snd (count_loop (ordered_beats scenario_C)
                       (0, 0, 1, length (instruments scenario_C))))) = 1
   \<and> (\<exists>am. snd (count_instruments_by_beat scenario_C) =
          Inr [am, \<lparr>mean_type = ''bm'', num_insts = 2, mean_value = Finite (3 / 2)\<rparr>])
   \<and> (1::real) \<le> 3 / 2"
proof -
  from binary_mean_at_least_min[OF scenario_C_ok] obtain am bm v where
    r: "snd (count_instruments_by_beat scenario_C) = Inr [am, bm]"
    and v: "mean_value bm = Finite v"
    and le: "real (snd (snd (snd (count_loop (ordered_beats scenario_C)
                       (0, 0, 1, length (instruments scenario_C)))))) \<le> v"
    by blast
  have c: "snd (snd (snd (count_loop (ordered_beats scenario_C)
                       (0, 0, 1, length (instruments scenario_C))))) = 1"
    unfolding count_loop_closed[OF scenario_C_ok(3)] by (simp add: scenario_C_values)
  have s: "snd (count_instruments_by_beat scenario_C) =
       Inr [\<lparr>mean_type = ''am'', num_insts = 2, mean_value = Finite (3 / 2)\<rparr>,
            \<lparr>mean_type = ''bm'', num_insts = 2, mean_value = Finite (3 / 2)\<rparr>]"
    using statistics_closed[OF scenario_C_ok]
    by (simp add: scenario_C_values scenario_C_rounding)
  from r s have bm: "bm = \<lparr>mean_type = ''bm'', num_insts = 2, mean_value = Finite (3 / 2)\<rparr>"
    and am: "am = \<lparr>mean_type = ''am'', num_insts = 2, mean_value = Finite (3 / 2)\<rparr>" by simp_all
  from v bm have "v = 3 / 2" by simp
  with le c have l: "(1::real) \<le> 3 / 2" by simp
  have e: "\<exists>am. snd (count_instruments_by_beat scenario_C) =
          Inr [am, \<lparr>mean_type = ''bm'', num_insts = 2, mean_value = Finite (3 / 2)\<rparr>]"
    using r bm by blast
  from scenario_C_ok(1) c e l show ?thesis by (intro conjI)
qed

section \<open>The timelines: \<^verbatim>\<open>setup_variables\<close> and \<^verbatim>\<open>beats_by_instrument\<close>\<close>

lemma digit_char_inj:
  assumes "a < 10" and "b < 10" and "digit_char a = digit_char b"
  shows "a = b"
proof -
  have "distinct ''0123456789''" by simp
  moreover have "a < length ''0123456789''" "b < length ''0123456789''" using assms by simp_all
  ultimately show ?thesis using assms(3) unfolding digit_char_def
    by (simp only: nth_eq_iff_index_eq)
qed

lemma str_nat_small: "n < 10 \<Longrightarrow> str_nat n = [digit_char n]"
  by (subst str_nat.simps) simp

lemma str_nat_large: "\<not> n < 10 \<Longrightarrow> str_nat n = str_nat (n div 10) @ [digit_char (n mod 10)]"
  by (subst str_nat.simps) simp

lemma str_nat_nonempty: "str_nat n \<noteq> []"
  by (subst str_nat.simps) simp

lemma str_nat_large_length: "\<not> n < 10 \<Longrightarrow> 2 \<le> length (str_nat n)"
proof -
  assume "\<not> n < 10"
  from str_nat_large[OF this] str_nat_nonempty[of "n div 10"] show ?thesis
    by (cases "str_nat (n div 10)") simp_all
qed

lemma str_nat_inj: "str_nat n = str_nat m \<Longrightarrow> n = m"
proof (induction n arbitrary: m rule: str_nat.induct)
  case (1 n)
  show ?case
  proof (cases "n < 10")
    case True
    show ?thesis
    proof (cases "m < 10")
      case m: True
      from "1.prems" have "digit_char n = digit_char m"
        by (simp add: str_nat_small[OF True] str_nat_small[OF m])
      with True m show ?thesis by (rule digit_char_inj)
    next
      case False
      have "str_nat m = [digit_char n]"
        using "1.prems" unfolding str_nat_small[OF True] by (rule sym)
      then have "length (str_nat m) = 1" by simp
      with str_nat_large_length[OF False] show ?thesis by simp
    qed
  next
    case False
    show ?thesis
    proof (cases "m < 10")
      case True
      have "str_nat n = [digit_char m]"
        using "1.prems" unfolding str_nat_small[OF True] .
      then have "length (str_nat n) = 1" by simp
      with str_nat_large_length[OF False] show ?thesis by simp
    next
      case m: False
      from "1.prems" have "str_nat (n div 10) = str_nat (m div 10)"
        and d: "digit_char (n mod 10) = digit_char (m mod 10)"
        by (simp_all add: str_nat_large[OF False] str_nat_large[OF m])
      from "1.IH"[OF False this(1)] have q: "n div 10 = m div 10" .
      have "n mod 10 = m mod 10" by (rule digit_char_inj[OF _ _ d]) simp_all
      with q show ?thesis by (metis div_mult_mod_eq)
    qed
  qed
qed

lemma str_int_uint_inj:
  fixes a b :: "7 word"
  assumes "str_int (uint a) = str_int (uint b)"
  shows "a = b"
proof -
  from assms have "str_nat (nat (uint a)) = str_nat (nat (uint b))"
    by (simp add: str_int_def)
  then have "nat (uint a) = nat (uint b)" by (rule str_nat_inj)
  then have "unat a = unat b" by simp
  then show ?thesis by (simp only: word_unat_eq_iff)
qed

lemma name_of_inj: "name_of m = name_of m' \<Longrightarrow> m_note m = m_note m'"
  by (auto simp: name_of_def split: sum.splits dest: str_int_uint_inj)

lemma beat_ok_names: "beat_ok l \<Longrightarrow> distinct (map name_of l)"
proof -
  assume "beat_ok l"
  then have d: "distinct (map m_note l)" by (simp add: beat_ok_def)
  then show ?thesis
  proof (induction l)
    case Nil
    then show ?case by simp
  next
    case (Cons m l)
    then have "m_note m \<notin> m_note ` set l" "distinct (map name_of l)" by simp_all
    moreover from this(1) have "name_of m \<notin> name_of ` set l"
      using name_of_inj[of m] by force
    ultimately show ?case by simp
  qed
qed

lemma filter_distinct_map:
  "distinct (map f l) \<Longrightarrow>
   map (\<lambda>m. t) (filter (\<lambda>m. f m = y) l) = (if y \<in> f ` set l then [t] else [])"
proof (induction l)
  case Nil
  then show ?case by simp
next
  case (Cons m l)
  then have n: "f m \<notin> f ` set l" and d: "distinct (map f l)" by simp_all
  show ?case
  proof (cases "f m = y")
    case True
    with n have "y \<notin> f ` set l" by simp
    with Cons.IH[OF d] True show ?thesis by simp
  next
    case False
    with Cons.IH[OF d] show ?thesis by auto
  qed
qed

lemma timeline_of_filter:
  assumes "list_all (\<lambda>(t, l). beat_ok l) obs"
  shows "timeline_of name obs =
     map fst (filter (\<lambda>(t, l). Inr name \<in> name_of ` set l) obs)"
  using assms
proof (induction obs)
  case Nil
  then show ?case by (simp add: timeline_of_def)
next
  case (Cons p rest)
  obtain t l where p: "p = (t, l)" by (cases p)
  from Cons.prems p have ok: "beat_ok l" and r: "list_all (\<lambda>(t, l). beat_ok l) rest"
    by simp_all
  from Cons.IH[OF r] have ih: "timeline_of name rest =
     map fst (filter (\<lambda>(t, l). Inr name \<in> name_of ` set l) rest)" .
  have "timeline_of name (p # rest) =
        map (\<lambda>m. t) (filter (\<lambda>m. name_of m = Inr name) l) @ timeline_of name rest"
    by (simp add: timeline_of_def p)
  also have "map (\<lambda>m. t) (filter (\<lambda>m. name_of m = Inr name) l) =
        (if Inr name \<in> name_of ` set l then [t] else [])"
    using beat_ok_names[OF ok] by (rule filter_distinct_map)
  finally show ?case by (simp add: ih p)
qed

lemma timeline_of_subseq:
  assumes "list_all (\<lambda>(t, l). beat_ok l) obs"
  shows "subseq (timeline_of name obs) (map fst obs)"
  unfolding timeline_of_filter[OF assms] by (intro subseq_map subseq_filter_left)

lemma timeline_of_ascending:
  assumes "list_all (\<lambda>(t, l). beat_ok l) obs" and "sorted_wrt (<) (map fst obs)"
  shows "sorted_wrt (<) (timeline_of name obs)"
proof -
  from assms(2) have "sorted_wrt (\<lambda>x y. fst x < fst y) obs" by (simp add: sorted_wrt_map)
  then have "sorted_wrt (\<lambda>x y. fst x < fst y)
     (filter (\<lambda>(t, l). Inr name \<in> name_of ` set l) obs)" by (rule sorted_wrt_filter)
  then show ?thesis unfolding timeline_of_filter[OF assms(1)] by (simp add: sorted_wrt_map)
qed

lemma setup_variables_ordered:
  assumes "beats_inv (beats self)"
  shows "sorted_wrt (<) (map fst (ordered_beats (setup_variables self)))"
    and "list_all (\<lambda>(t, l). beat_ok l) (ordered_beats (setup_variables self))"
proof -
  let ?obs = "sort_key fst (beats self)"
  from assms have d: "distinct (map fst (beats self))"
    and ok: "list_all (\<lambda>(t, l). beat_ok l) (beats self)" by (simp_all add: beats_inv_def)
  from d have "distinct (beats self)" "inj_on fst (set (beats self))"
    by (simp_all add: distinct_map)
  then have "distinct (map fst ?obs)" by (simp add: distinct_map)
  moreover have "sorted (map fst ?obs)" by simp
  ultimately show "sorted_wrt (<) (map fst (ordered_beats (setup_variables self)))"
    by (simp add: strict_sorted_iff setup_variables_def)
  from ok show "list_all (\<lambda>(t, l). beat_ok l) (ordered_beats (setup_variables self))"
    by (simp add: list_all_iff setup_variables_def)
qed

lemma add_tick:
  assumes d: "distinct (map fst insts)"
  shows "distinct (map fst (AList.map_entry nm0 (\<lambda>l. l @ [t])
           (if map_of insts nm0 = None then insts @ [(nm0, [])] else insts)))"
    and "ticks_of (AList.map_entry nm0 (\<lambda>l. l @ [t])
           (if map_of insts nm0 = None then insts @ [(nm0, [])] else insts)) nm =
         ticks_of insts nm @ (if nm = nm0 then [t] else [])"
proof -
  let ?i1 = "if map_of insts nm0 = None then insts @ [(nm0, [])] else insts"
  have d1: "distinct (map fst ?i1)"
    using d by (auto simp: map_of_eq_None_iff)
  then show "distinct (map fst (AList.map_entry nm0 (\<lambda>l. l @ [t]) ?i1))"
    by (rule distinct_map_entry)
  have m1: "map_of ?i1 nm =
      (if nm = nm0 \<and> map_of insts nm0 = None then Some [] else map_of insts nm)"
    by (auto simp: map_add_def split: option.splits)
  show "ticks_of (AList.map_entry nm0 (\<lambda>l. l @ [t]) ?i1) nm =
         ticks_of insts nm @ (if nm = nm0 then [t] else [])"
    unfolding ticks_of_def map_of_map_entry m1
    by (auto split: option.splits)
qed

lemma instruments_of_beat_ticks:
  assumes "list_all attack l" and "distinct (map fst insts)"
  shows "\<exists>insts'. instruments_of_beat t l insts = Inr insts' \<and> distinct (map fst insts')
     \<and> (\<forall>nm. ticks_of insts' nm =
            ticks_of insts nm @ map (\<lambda>m. t) (filter (\<lambda>m. name_of m = Inr nm) l))"
  using assms
proof (induction l arbitrary: insts)
  case Nil
  then show ?case by simp
next
  case (Cons m l)
  from Cons.prems(1) have a: "attack m" and al: "list_all attack l" by simp_all
  from attack_note[OF a] obtain n where n: "m_note m = Inr n" ..
  let ?nm0 = "str_int (uint n)"
  let ?i2 = "AList.map_entry ?nm0 (\<lambda>l. l @ [t])
           (if map_of insts ?nm0 = None then insts @ [(?nm0, [])] else insts)"
  note s = add_tick[OF Cons.prems(2), of ?nm0 t]
  from Cons.IH[OF al s(1)] obtain insts' where
    r: "instruments_of_beat t l ?i2 = Inr insts'" and d: "distinct (map fst insts')"
    and tk: "\<And>nm. ticks_of insts' nm =
            ticks_of ?i2 nm @ map (\<lambda>m. t) (filter (\<lambda>m. name_of m = Inr nm) l)"
    by blast
  have e: "instruments_of_beat t (m # l) insts = Inr insts'"
    using r by (simp add: n Let_def)
  have nm: "name_of m = Inr ?nm0" by (simp add: name_of_def n)
  have "ticks_of insts' nm' =
            ticks_of insts nm' @ map (\<lambda>m. t) (filter (\<lambda>m. name_of m = Inr nm') (m # l))" for nm'
    unfolding tk s(2) by (auto simp: nm)
  with e d show ?case by blast
qed

lemma instruments_of_beats_ticks:
  assumes "list_all (\<lambda>(t, l). beat_ok l) obs" and "distinct (map fst insts)"
  shows "\<exists>insts'. instruments_of_beats obs insts = Inr insts' \<and> distinct (map fst insts')
     \<and> (\<forall>nm. ticks_of insts' nm = ticks_of insts nm @ timeline_of nm obs)"
  using assms
proof (induction obs arbitrary: insts)
  case Nil
  then show ?case by (simp add: timeline_of_def)
next
  case (Cons p rest)
  obtain t l where p: "p = (t, l)" by (cases p)
  from Cons.prems(1) p have ok: "beat_ok l" and r: "list_all (\<lambda>(t, l). beat_ok l) rest"
    by simp_all
  from ok have "list_all attack l" by (simp add: beat_ok_def)
  from instruments_of_beat_ticks[OF this Cons.prems(2), of t] obtain insts1 where
    b: "instruments_of_beat t l insts = Inr insts1" and d1: "distinct (map fst insts1)"
    and t1: "\<And>nm. ticks_of insts1 nm =
            ticks_of insts nm @ map (\<lambda>m. t) (filter (\<lambda>m. name_of m = Inr nm) l)"
    by blast
  from Cons.IH[OF r d1] obtain insts' where
    e: "instruments_of_beats rest insts1 = Inr insts'" and d: "distinct (map fst insts')"
    and tk: "\<And>nm. ticks_of insts' nm = ticks_of insts1 nm @ timeline_of nm rest"
    by blast
  have "instruments_of_beats (p # rest) insts = Inr insts'" using b e by (simp add: p)
  moreover have "ticks_of insts' nm = ticks_of insts nm @ timeline_of nm (p # rest)" for nm
    unfolding tk t1 by (simp add: timeline_of_def p)
  ultimately show ?case using d by blast
qed

lemma process_message_instruments:
  "process_message self message = Inr self' \<Longrightarrow> instruments self' = instruments self"
  by (cases message)
    (auto simp: process_message_def Let_def split: if_splits option.splits sum.splits)

lemma process_track_instruments:
  "process_track self track = Inr self' \<Longrightarrow> instruments self' = instruments self"
proof (induction track arbitrary: self)
  case Nil
  then show ?case by simp
next
  case (Cons message rest)
  from Cons.prems obtain self1 where
    m: "process_message self message = Inr self1" and r: "process_track self1 rest = Inr self'"
    by (auto split: sum.splits)
  from Cons.IH[OF r] process_message_instruments[OF m] show ?case by simp
qed

lemma process_tracks_loop_instruments:
  "process_tracks_loop self ts = Inr self' \<Longrightarrow> instruments self' = instruments self"
proof (induction ts arbitrary: self)
  case Nil
  then show ?case by simp
next
  case (Cons track rest)
  from Cons.prems obtain self1 where
    t: "process_track (self\<lparr>abs_time_counter := 0\<rparr>) track = Inr self1" and
    r: "process_tracks_loop
          (if max_track_len self1 < abs_time_counter self1
           then self1\<lparr>max_track_len := abs_time_counter self1\<rparr> else self1) rest = Inr self'"
    by (auto split: sum.splits)
  from Cons.IH[OF r] process_track_instruments[OF t] show ?case by (simp split: if_splits)
qed

text \<open>
  Claim C4. After the scan of any file, \<^verbatim>\<open>beats_by_instrument\<close> on the sorted beats returns
  (no event lacks a note), the sorted ticks are strictly ascending, and the list the
  dict \<^verbatim>\<open>instruments\<close> has for a name is the list of the ticks at which an event of that
  name attacks, in the order of the sorted beats: strictly ascending, and a subsequence
  of the ticks of the sorted beats.
\<close>

theorem timelines_ascending_subsequences:
  assumes "process_tracks (init MidiFile path rt) = Inr self1"
  shows "\<exists>self2. beats_by_instrument (setup_variables self1) = Inr self2
     \<and> ordered_beats self2 = sort_key fst (beats self1)
     \<and> sorted_wrt (<) (map fst (ordered_beats self2))
     \<and> (\<forall>(name, ticks) \<in> set (instruments self2).
           ticks = timeline_of name (ordered_beats self2)
           \<and> sorted_wrt (<) ticks
           \<and> subseq ticks (map fst (ordered_beats self2)))"
proof -
  let ?s = "setup_variables self1"
  let ?obs = "ordered_beats ?s"
  from process_tracks_beats_inv[OF assms] have inv: "beats_inv (beats self1)" .
  note so = setup_variables_ordered[OF inv]
  from assms have "instruments self1 = []"
    using process_tracks_loop_instruments[of "init MidiFile path rt" _ self1]
    by (simp add: process_tracks_def init_def)
  then have i0: "instruments ?s = []" by (simp add: setup_variables_def)
  from instruments_of_beats_ticks[OF so(2), of "[]"] obtain insts' where
    e: "instruments_of_beats ?obs [] = Inr insts'" and d: "distinct (map fst insts')"
    and tk: "\<And>nm. ticks_of insts' nm = timeline_of nm ?obs"
    by (auto simp: ticks_of_def)
  let ?s2 = "?s\<lparr>instruments := insts'\<rparr>"
  have b: "beats_by_instrument ?s = Inr ?s2" by (simp add: beats_by_instrument_def i0 e)
  have o: "ordered_beats ?s2 = sort_key fst (beats self1)" by (simp add: setup_variables_def)
  have o2: "ordered_beats ?s2 = ?obs" by simp
  have "ticks = timeline_of name ?obs \<and> sorted_wrt (<) ticks \<and> subseq ticks (map fst ?obs)"
    if "(name, ticks) \<in> set insts'" for name ticks
  proof -
    from d that have "map_of insts' name = Some ticks" by simp
    then have "ticks_of insts' name = ticks" by (simp add: ticks_of_def)
    with tk have "ticks = timeline_of name ?obs" by simp
    with timeline_of_ascending[OF so(2) so(1), of name] timeline_of_subseq[OF so(2), of name]
    show ?thesis by simp
  qed
  then have "\<forall>(name, ticks) \<in> set (instruments ?s2).
           ticks = timeline_of name (ordered_beats ?s2)
           \<and> sorted_wrt (<) ticks
           \<and> subseq ticks (map fst (ordered_beats ?s2))"
    unfolding o2 by auto
  with b o so(1) show ?thesis unfolding o2[symmetric] by blast
qed

text \<open>
  The sort and the regrouping of the example file: tick 30, found in the third track,
  comes before tick 100 of the first.
\<close>

lemma example_file_timelines:
  "beats_by_instrument (setup_variables
     ((init (\<lambda>_. example_file) ''songs/a.mid'' [])
          \<lparr> beats := [(100, [NoteOn 100 9 36 100, NoteOn 0 9 38 90]), (30, [NoteOn 30 9 36 1])],
            abs_time_counter := 30, max_track_len := 400 \<rparr>)) =
   Inr ((init (\<lambda>_. example_file) ''songs/a.mid'' [])
          \<lparr> beats := [(100, [NoteOn 100 9 36 100, NoteOn 0 9 38 90]), (30, [NoteOn 30 9 36 1])],
            abs_time_counter := 30, max_track_len := 400,
            ordered_beats := [(30, [NoteOn 30 9 36 1]),
                              (100, [NoteOn 100 9 36 100, NoteOn 0 9 38 90])],
            instruments := [(''36'', [30, 100]), (''38'', [100])] \<rparr>)"
  by (simp add: init_def setup_variables_def beats_by_instrument_def Let_def
      str_int_def str_nat.simps digit_char_def)

text \<open>
  In the example file the beats are stored at ticks 100 and 30 and sorted to 30 and 100;
  note 36 has the ticks 30 and 100, and note 38 the tick 100.
\<close>

theorem timelines_ascending_subsequences_witness:
  "(\<exists>self1 self2. process_tracks (init (\<lambda>_. example_file) ''songs/a.mid'' []) = Inr self1
       \<and> beats self1 = [(100, [NoteOn 100 9 36 100, NoteOn 0 9 38 90]), (30, [NoteOn 30 9 36 1])]
       \<and> beats_by_instrument (setup_variables self1) = Inr self2
       \<and> map fst (ordered_beats self2) = [30, 100]
       \<and> instruments self2 = [(''36'', [30, 100]), (''38'', [100])])
   \<and> sorted_wrt (<) [30, 100 :: nat] \<and> subseq [30, 100 :: nat] [30, 100]
   \<and> sorted_wrt (<) [100 :: nat] \<and> subseq [100 :: nat] [30, 100]"
proof -
  let ?s1 = "(init (\<lambda>_. example_file) ''songs/a.mid'' [])
          \<lparr> beats := [(100, [NoteOn 100 9 36 100, NoteOn 0 9 38 90]), (30, [NoteOn 30 9 36 1])],
            abs_time_counter := 30, max_track_len := 400 \<rparr>"
  let ?s2 = "(init (\<lambda>_. example_file) ''songs/a.mid'' [])
          \<lparr> beats := [(100, [NoteOn 100 9 36 100, NoteOn 0 9 38 90]), (30, [NoteOn 30 9 36 1])],
            abs_time_counter := 30, max_track_len := 400,
            ordered_beats := [(30, [NoteOn 30 9 36 1]),
                              (100, [NoteOn 100 9 36 100, NoteOn 0 9 38 90])],
            instruments := [(''36'', [30, 100]), (''38'', [100])] \<rparr>"
  from timelines_ascending_subsequences[OF example_file_scan] obtain self2 where
    b: "beats_by_instrument (setup_variables ?s1) = Inr self2"
    and a: "\<forall>(name, ticks) \<in> set (instruments self2).
           ticks = timeline_of name (ordered_beats self2)
           \<and> sorted_wrt (<) ticks
           \<and> subseq ticks (map fst (ordered_beats self2))"
    by (elim exE conjE)
  from b have s2: "self2 = ?s2" unfolding example_file_timelines by simp
  have i: "instruments ?s2 = [(''36'', [30, 100]), (''38'', [100])]" by simp
  have o: "map fst (ordered_beats ?s2) = [30, 100]" by simp
  have bs: "beats ?s1 = [(100, [NoteOn 100 9 36 100, NoteOn 0 9 38 90]), (30, [NoteOn 30 9 36 1])]"
    by simp
  from a have a': "\<forall>(name, ticks) \<in> set [(''36'', [30, 100]), (''38'', [100::nat])].
           ticks = timeline_of name (ordered_beats ?s2)
           \<and> sorted_wrt (<) ticks
           \<and> subseq ticks [30, 100]"
    unfolding s2 i o .
  have m1: "(''36'', [30, 100::nat]) \<in> set [(''36'', [30, 100]), (''38'', [100::nat])]"
    and m2: "(''38'', [100::nat]) \<in> set [(''36'', [30, 100]), (''38'', [100::nat])]"
    by simp_all
  from bspec[OF a' m1]
  have x: "[30, 100] = timeline_of ''36'' (ordered_beats ?s2)
       \<and> sorted_wrt (<) [30, 100 :: nat] \<and> subseq [30, 100 :: nat] [30, 100]"
    by (simp only: prod.case)
  from bspec[OF a' m2]
  have y: "[100] = timeline_of ''38'' (ordered_beats ?s2)
       \<and> sorted_wrt (<) [100 :: nat] \<and> subseq [100 :: nat] [30, 100]"
    by (simp only: prod.case)
  note r1 = x[THEN conjunct2, THEN conjunct1] and r2 = x[THEN conjunct2, THEN conjunct2]
    and r3 = y[THEN conjunct2, THEN conjunct1] and r4 = y[THEN conjunct2, THEN conjunct2]
  have e: "\<exists>self1 self2. process_tracks (init (\<lambda>_. example_file) ''songs/a.mid'' []) = Inr self1
       \<and> beats self1 = [(100, [NoteOn 100 9 36 100, NoteOn 0 9 38 90]), (30, [NoteOn 30 9 36 1])]
       \<and> beats_by_instrument (setup_variables self1) = Inr self2
       \<and> map fst (ordered_beats self2) = [30, 100]
       \<and> instruments self2 = [(''36'', [30, 100]), (''38'', [100])]"
    by (intro exI[of _ ?s1] exI[of _ ?s2] conjI)
      (fact example_file_scan, fact bs, fact example_file_timelines, fact o, fact i)
  from e r1 r2 r3 r4 show ?thesis by (intro conjI)
qed

text \<open>
  The conditions of the statistics hold after the scan, the sort and the regrouping of
  any file: the sorted beats are well-formed lists of attacks.
\<close>

lemma beats_by_instrument_ordered_beats:
  "beats_by_instrument self = Inr self' \<Longrightarrow> ordered_beats self' = ordered_beats self"
  by (auto simp: beats_by_instrument_def split: sum.splits)

lemma pipeline_beats_ok:
  assumes "process_tracks (init MidiFile path rt) = Inr self1"
    and "beats_by_instrument (setup_variables self1) = Inr self2"
  shows "list_all (\<lambda>(t, l). beat_ok l) (ordered_beats self2)"
    and "ordered_beats self2 \<noteq> [] \<longleftrightarrow> beats self1 \<noteq> []"
proof -
  from process_tracks_beats_inv[OF assms(1)] have inv: "beats_inv (beats self1)" .
  from setup_variables_ordered(2)[OF inv] beats_by_instrument_ordered_beats[OF assms(2)]
  show "list_all (\<lambda>(t, l). beat_ok l) (ordered_beats self2)" by simp
  have "length (ordered_beats self2) = length (beats self1)"
    using beats_by_instrument_ordered_beats[OF assms(2)] by (simp add: setup_variables_def)
  then show "ordered_beats self2 \<noteq> [] \<longleftrightarrow> beats self1 \<noteq> []" by auto
qed

section \<open>The guard of the script against a file without beats\<close>

lemma process_message_no_attack:
  "\<not> attack message \<Longrightarrow> process_message self message = Inr self' \<Longrightarrow>
   beats self' = beats self"
  by (cases message)
    (auto simp: process_message_def Let_def split: if_splits option.splits sum.splits)

lemma process_track_no_attack:
  "\<forall>m \<in> set track. \<not> attack m \<Longrightarrow> process_track self track = Inr self' \<Longrightarrow>
   beats self' = beats self"
proof (induction track arbitrary: self)
  case Nil
  then show ?case by simp
next
  case (Cons message rest)
  from Cons.prems(2) obtain self1 where
    m: "process_message self message = Inr self1" and r: "process_track self1 rest = Inr self'"
    by (auto split: sum.splits)
  from Cons.prems(1) have h: "\<not> attack message" "\<forall>m \<in> set rest. \<not> attack m" by simp_all
  from process_message_no_attack[OF h(1) m] Cons.IH[OF h(2) r] show ?case by simp
qed

lemma process_tracks_loop_no_attack:
  "\<forall>track \<in> set ts. \<forall>m \<in> set track. \<not> attack m \<Longrightarrow>
   process_tracks_loop self ts = Inr self' \<Longrightarrow> beats self' = beats self"
proof (induction ts arbitrary: self)
  case Nil
  then show ?case by simp
next
  case (Cons track rest)
  from Cons.prems(2) obtain self1 where
    t: "process_track (self\<lparr>abs_time_counter := 0\<rparr>) track = Inr self1" and
    r: "process_tracks_loop
          (if max_track_len self1 < abs_time_counter self1
           then self1\<lparr>max_track_len := abs_time_counter self1\<rparr> else self1) rest = Inr self'"
    by (auto split: sum.splits)
  from Cons.prems(1) have h: "\<forall>m \<in> set track. \<not> attack m"
    "\<forall>track \<in> set rest. \<forall>m \<in> set track. \<not> attack m" by simp_all
  from process_track_no_attack[OF h(1) t] Cons.IH[OF h(2) r] show ?case
    by (simp split: if_splits)
qed

text \<open>
  Whenever \<^verbatim>\<open>create_timelines\<close> runs, it prints its header first: a run whose output has
  no header did not call it.
\<close>

lemma timelines_loop_prefix:
  "\<exists>more. fst (timelines_loop enum_str self insts out) = out @ more"
proof (induction insts arbitrary: out)
  case Nil
  then show ?case by simp
next
  case (Cons p rest)
  obtain instrument_id beats_ticks where p: "p = (instrument_id, beats_ticks)" by (cases p)
  show ?case
  proof (cases "print_instrument_name enum_str instrument_id")
    case (Inl e)
    then show ?thesis by (simp add: p)
  next
    case (Inr name_line)
    show ?thesis
    proof (cases "tubs_of_instrument self beats_ticks")
      case (Inl e)
      then show ?thesis by (simp add: p Inr)
    next
      case r: (Inr res)
      from Cons.IH[of "out @ [name_line] @ tubs_lines res"] obtain more where
        "fst (timelines_loop enum_str self rest (out @ [name_line] @ tubs_lines res)) =
           (out @ [name_line] @ tubs_lines res) @ more" ..
      then have "fst (timelines_loop enum_str self (p # rest) out) =
           out @ ([name_line] @ tubs_lines res @ more)"
        by (simp add: p Inr r)
      then show ?thesis ..
    qed
  qed
qed

lemma create_timelines_header:
  "\<exists>more. fst (create_timelines enum_str self) = (CHR 0x0A # ''INSTRUMENTOS:'') # more"
  using timelines_loop_prefix[of enum_str self "instruments self" "[CHR 0x0A # ''INSTRUMENTOS:'']"]
  by (simp add: create_timelines_def)

text \<open>
  Claim C7. When the scan returns and leaves the dict of beats empty, lines 183 to 190
  print the one message \<open>Found no beats on file ...\<close> and end without an exception:
  neither the sort, the regrouping nor \<^verbatim>\<open>create_timelines\<close> runs (its header is not in
  the output), and these lines call \<^verbatim>\<open>count_instruments_by_beat\<close> on no path, so nothing is
  divided by the number of beats. The dict is empty after the scan of a file in which no
  message of any track is a qualifying attack.
\<close>

theorem no_beats_short_circuit:
  "(\<forall>processor0 processor1.
      process_tracks processor0 = Inr processor1 \<longrightarrow> beats processor1 = [] \<longrightarrow>
      run_processor enum_str file processor0 =
        ([''Found no beats on file '' @ file @ ''.''], None))
   \<and> ((\<forall>track \<in> set (mid_tracks (MidiFile path)). \<forall>m \<in> set track. \<not> attack m) \<longrightarrow>
        (\<forall>processor1. process_tracks (init MidiFile path rt) = Inr processor1 \<longrightarrow>
           beats processor1 = []
           \<and> run_processor enum_str file (init MidiFile path rt) =
               ([''Found no beats on file '' @ file @ ''.''], None)))"
proof (intro conjI allI impI)
  fix processor0 processor1
  assume "process_tracks processor0 = Inr processor1" and "beats processor1 = []"
  then show "run_processor enum_str file processor0 =
        ([''Found no beats on file '' @ file @ ''.''], None)"
    by (rule run_processor_no_beats)
next
  fix processor1
  assume h: "\<forall>track \<in> set (mid_tracks (MidiFile path)). \<forall>m \<in> set track. \<not> attack m"
    and r: "process_tracks (init MidiFile path rt) = Inr processor1"
  from r have "process_tracks_loop (init MidiFile path rt) (mid_tracks (MidiFile path)) =
      Inr processor1" by (simp add: process_tracks_def init_def)
  from process_tracks_loop_no_attack[OF h this] show b: "beats processor1 = []"
    by (simp add: init_def)
  from r b show "run_processor enum_str file (init MidiFile path rt) =
        ([''Found no beats on file '' @ file @ ''.''], None)"
    by (rule run_processor_no_beats)
qed

text \<open>
  The scan of the file without a qualifying attack.
\<close>

lemma quiet_file_scan:
  "process_tracks (init (\<lambda>_. quiet_file) ''songs/q.mid'' []) =
     Inr ((init (\<lambda>_. quiet_file) ''songs/q.mid'' [])
          \<lparr> numerator := 3, denominator := 4, abs_time_counter := 10, max_track_len := 50 \<rparr>)"
  by (simp add: process_tracks_def init_def quiet_file_def process_message_def Let_def)

text \<open>
  The file without a qualifying attack: the scan leaves no beat, and the run prints the
  message only.
\<close>

theorem no_beats_short_circuit_witness:
  "(\<exists>processor1. process_tracks (init (\<lambda>_. quiet_file) ''songs/q.mid'' []) = Inr processor1
       \<and> beats processor1 = [])
   \<and> run_processor (\<lambda>i. Inr (str_int i)) ''songs/q.mid'' (init (\<lambda>_. quiet_file) ''songs/q.mid'' []) =
       ([''Found no beats on file songs/q.mid.''], None)"
proof -
  let ?s = "(init (\<lambda>_. quiet_file) ''songs/q.mid'' [])
          \<lparr> numerator := 3, denominator := 4, abs_time_counter := 10, max_track_len := 50 \<rparr>"
  have q: "\<forall>track \<in> set (mid_tracks ((\<lambda>_. quiet_file) ''songs/q.mid'')).
             \<forall>m \<in> set track. \<not> attack m"
    by (simp add: quiet_file_def)
  note t = no_beats_short_circuit[of "\<lambda>i. Inr (str_int i)" "''songs/q.mid''"
      "\<lambda>_. quiet_file" "''songs/q.mid''" "[]"]
  note c = t[THEN conjunct2, THEN mp, OF q, THEN spec, THEN mp, OF quiet_file_scan]
  have e: "\<exists>processor1. process_tracks (init (\<lambda>_. quiet_file) ''songs/q.mid'' []) = Inr processor1
       \<and> beats processor1 = []"
    by (intro exI[of _ ?s] conjI) (fact quiet_file_scan, fact c[THEN conjunct1])
  from c[THEN conjunct2]
  have r: "run_processor (\<lambda>i. Inr (str_int i)) ''songs/q.mid''
             (init (\<lambda>_. quiet_file) ''songs/q.mid'' []) =
       ([''Found no beats on file songs/q.mid.''], None)" by simp
  from e r show ?thesis by (rule conjI)
qed

end
